theory Spec2Isabelle
  imports Complex_Main "HOL-Library.Word"
begin

unbundle bit_operations_syntax

section \<open>Buffers and JavaScript errors\<close>

text \<open>
  A Node \<open>Buffer\<close> or \<open>Uint8Array\<close> is a list of bytes. Indexing past the end gives
  \<open>undefined\<close> (here \<open>None\<close>); the \<open>readUInt...\<close> and \<open>writeUInt...\<close> methods raise a
  \<open>RangeError\<close> instead. Every raise of the modelled code is a left value of a sum.
\<close>

type_synonym byte = "8 word"

datatype js_error = RangeError | AlreadyRecording | NotRecording | FileTooSmall | BadMagic
  | UnsupportedRecordingVersion nat | NoRecordingLoaded | StackOverflow

definition bindE :: "js_error + 'a \<Rightarrow> ('a \<Rightarrow> js_error + 'b) \<Rightarrow> js_error + 'b" where
  "bindE m f = (case m of Inl e \<Rightarrow> Inl e | Inr x \<Rightarrow> f x)"

definition byteAt :: "byte list \<Rightarrow> nat \<Rightarrow> byte option" where
  "byteAt buf i = (if i < length buf then Some (buf ! i) else None)"

definition readUInt8 :: "byte list \<Rightarrow> nat \<Rightarrow> js_error + nat" where
  "readUInt8 buf off = (if off + 1 \<le> length buf then Inr (unat (buf ! off)) else Inl RangeError)"

definition readUInt16LE :: "byte list \<Rightarrow> nat \<Rightarrow> js_error + nat" where
  "readUInt16LE buf off =
     (if off + 2 \<le> length buf then Inr (unat (buf ! off) + 256 * unat (buf ! (off + 1)))
      else Inl RangeError)"

definition readUInt16BE :: "byte list \<Rightarrow> nat \<Rightarrow> js_error + nat" where
  "readUInt16BE buf off =
     (if off + 2 \<le> length buf then Inr (256 * unat (buf ! off) + unat (buf ! (off + 1)))
      else Inl RangeError)"

definition readUInt32LE :: "byte list \<Rightarrow> nat \<Rightarrow> js_error + nat" where
  "readUInt32LE buf off =
     (if off + 4 \<le> length buf
      then Inr (unat (buf ! off) + 256 * unat (buf ! (off + 1)) + 65536 * unat (buf ! (off + 2))
                + 16777216 * unat (buf ! (off + 3)))
      else Inl RangeError)"

text \<open>\<open>buf.write(string, offset)\<close> and \<open>src.copy(buf, offset)\<close>: bytes that do not fit are cut off.\<close>

fun writeBytes :: "byte list \<Rightarrow> byte list \<Rightarrow> nat \<Rightarrow> byte list" where
  "writeBytes buf [] off = buf"
| "writeBytes buf (b # bs) off = writeBytes (if off < length buf then buf[off := b] else buf) bs (Suc off)"

definition writeUInt8 :: "byte list \<Rightarrow> int \<Rightarrow> nat \<Rightarrow> js_error + byte list" where
  "writeUInt8 buf v off =
     (if 0 \<le> v \<and> v \<le> 255 \<and> off + 1 \<le> length buf then Inr (buf[off := word_of_int v])
      else Inl RangeError)"

definition writeUInt16LE :: "byte list \<Rightarrow> int \<Rightarrow> nat \<Rightarrow> js_error + byte list" where
  "writeUInt16LE buf v off =
     (if 0 \<le> v \<and> v \<le> 65535 \<and> off + 2 \<le> length buf
      then Inr (buf[off := word_of_int (v mod 256), off + 1 := word_of_int (v div 256)])
      else Inl RangeError)"

definition writeUInt16BE :: "byte list \<Rightarrow> int \<Rightarrow> nat \<Rightarrow> js_error + byte list" where
  "writeUInt16BE buf v off =
     (if 0 \<le> v \<and> v \<le> 65535 \<and> off + 2 \<le> length buf
      then Inr (buf[off := word_of_int (v div 256), off + 1 := word_of_int (v mod 256)])
      else Inl RangeError)"

definition writeUInt32LE :: "byte list \<Rightarrow> int \<Rightarrow> nat \<Rightarrow> js_error + byte list" where
  "writeUInt32LE buf v off =
     (if 0 \<le> v \<and> v \<le> 4294967295 \<and> off + 4 \<le> length buf
      then Inr (buf[off := word_of_int (v mod 256), off + 1 := word_of_int (v div 256 mod 256),
                    off + 2 := word_of_int (v div 65536 mod 256),
                    off + 3 := word_of_int (v div 16777216)])
      else Inl RangeError)"

section \<open>Shared types (types.ts)\<close>

definition TOTAL_CHANNELS :: nat where
  "TOTAL_CHANNELS = 32 * 16"

definition isValidUniverse :: "int \<Rightarrow> bool" where
  "isValidUniverse universe = (universe \<ge> 0 \<and> universe \<le> 63999)"

record DMXPacket =
  pkt_universe :: nat
  pkt_channels :: "byte list"
  pkt_source :: "string option"
  pkt_priority :: "nat option"
  pkt_sequence :: "nat option"
  pkt_timestamp :: int

record UniverseInfo =
  ui_universe :: nat
  ui_lastSeen :: int
  ui_packetCount :: nat
  ui_source :: "string option"

text \<open>
  An Art-Net node as the poll reply describes it. The names stay the raw bytes before the
  first NUL (UTF-8 decoding and trimming are presentation), and the manufacturer stays the
  ESTA code, since the table that names it is not part of these sources.
\<close>

record ArtNetNode =
  node_ip :: string
  node_shortName :: "byte list"
  node_longName :: "byte list"
  node_universes :: "nat list"
  node_macAddress :: "byte list"
  node_estaCode :: nat
  node_firmwareVersion :: "nat \<times> nat"
  node_lastSeen :: int

datatype log_note = PacketTooShort nat | InvalidHeader | UnhandledPacket nat | UnsupportedVersion nat
  | InvalidUniverseNote nat | InvalidDataLength nat | PacketTruncated nat nat | ReplyTooShort nat

datatype event = EmitPacket DMXPacket | EmitUniverseDiscovered nat | EmitNodeDiscovered ArtNetNode
  | LogNote log_note

fun emittedPackets :: "event list \<Rightarrow> DMXPacket list" where
  "emittedPackets [] = []"
| "emittedPackets (EmitPacket p # es) = p # emittedPackets es"
| "emittedPackets (e # es) = emittedPackets es"

section \<open>Art-Net handler\<close>

definition ARTNET_OPCODE_DMX :: nat where "ARTNET_OPCODE_DMX = 0x5000"
definition ARTNET_OPCODE_POLL :: nat where "ARTNET_OPCODE_POLL = 0x2000"
definition ARTNET_OPCODE_POLL_REPLY :: nat where "ARTNET_OPCODE_POLL_REPLY = 0x2100"

text \<open>The eight bytes of \<open>"Art-Net\0"\<close>.\<close>

definition ARTNET_HEADER :: "byte list" where
  "ARTNET_HEADER = [0x41, 0x72, 0x74, 0x2D, 0x4E, 0x65, 0x74, 0x00]"

definition ARTNET_HEADER_LENGTH :: nat where "ARTNET_HEADER_LENGTH = 8"
definition ARTNET_MIN_PACKET_LENGTH :: nat where "ARTNET_MIN_PACKET_LENGTH = 18"
definition ARTNET_POLL_REPLY_MIN_LENGTH :: nat where "ARTNET_POLL_REPLY_MIN_LENGTH = 207"

record ArtNetHandler =
  discoveredUniverses :: "nat \<rightharpoonup> UniverseInfo"
  discoveredNodes :: "string \<rightharpoonup> ArtNetNode"
  socketOpen :: bool

text \<open>\<open>sendArtPoll\<close>: the 14-byte datagram handed to the socket, or nothing without a socket.\<close>

definition artPollPacket :: "js_error + byte list" where
  "artPollPacket =
     bindE (Inr (writeBytes (replicate 14 0) ARTNET_HEADER 0)) (\<lambda>p.
     bindE (writeUInt16LE p (int ARTNET_OPCODE_POLL) 8) (\<lambda>p.
     bindE (writeUInt8 p 0 10) (\<lambda>p.
     bindE (writeUInt8 p 14 11) (\<lambda>p.
     bindE (writeUInt8 p 0 12) (\<lambda>p.
     writeUInt8 p 0 13)))))"

definition sendArtPoll :: "ArtNetHandler \<Rightarrow> js_error + byte list option" where
  "sendArtPoll h = (if \<not> socketOpen h then Inr None else bindE artPollPacket (\<lambda>p. Inr (Some p)))"

definition validateHeader :: "byte list \<Rightarrow> bool" where
  "validateHeader msg = list_all (\<lambda>i. byteAt msg i = byteAt ARTNET_HEADER i) [0..<ARTNET_HEADER_LENGTH]"

text \<open>The copy loop of \<open>parseDMXPacket\<close> into a fresh, zero-filled array of 512 channels.\<close>

definition extractChannels :: "byte list \<Rightarrow> nat \<Rightarrow> byte list" where
  "extractChannels msg dataLength =
     foldl (\<lambda>channels i. case byteAt msg (18 + i) of None \<Rightarrow> channels | Some v \<Rightarrow> channels[i := v])
       (replicate TOTAL_CHANNELS 0) [0..<min dataLength TOTAL_CHANNELS]"

definition parseDMXPacket ::
  "byte list \<Rightarrow> string \<Rightarrow> int \<Rightarrow> ArtNetHandler \<Rightarrow> js_error + ArtNetHandler \<times> event list" where
  "parseDMXPacket msg rinfo now h =
     bindE (readUInt16BE msg 10) (\<lambda>protocolVersion.
     if protocolVersion < 14 then Inr (h, [LogNote (UnsupportedVersion protocolVersion)])
     else
       let sequence = map_option unat (byteAt msg 12) in
       bindE (readUInt16LE msg 14) (\<lambda>universe.
       if \<not> isValidUniverse (int universe) then Inr (h, [LogNote (InvalidUniverseNote universe)])
       else
         bindE (readUInt16BE msg 16) (\<lambda>dataLength.
         if dataLength < 2 \<or> dataLength > 512 then Inr (h, [LogNote (InvalidDataLength dataLength)])
         else if length msg < 18 + dataLength
           then Inr (h, [LogNote (PacketTruncated (18 + dataLength) (length msg))])
         else
           let (h', discovered) =
                 (case discoveredUniverses h universe of
                    None \<Rightarrow>
                      (h\<lparr>discoveredUniverses := (discoveredUniverses h)(universe \<mapsto>
                           \<lparr>ui_universe = universe, ui_lastSeen = now, ui_packetCount = 1,
                            ui_source = Some rinfo\<rparr>)\<rparr>,
                       [EmitUniverseDiscovered universe])
                  | Some existingInfo \<Rightarrow>
                      (h\<lparr>discoveredUniverses := (discoveredUniverses h)(universe \<mapsto>
                           existingInfo\<lparr>ui_lastSeen := now,
                                        ui_packetCount := ui_packetCount existingInfo + 1,
                                        ui_source := Some rinfo\<rparr>)\<rparr>,
                       []));
               channels = extractChannels msg dataLength;
               dmxPacket = \<lparr>pkt_universe = universe, pkt_channels = channels,
                            pkt_source = Some rinfo, pkt_priority = None,
                            pkt_sequence = sequence, pkt_timestamp = now\<rparr>
           in Inr (h', discovered @ [EmitPacket dmxPacket]))))"

text \<open>
  \<open>parseArtPollReply\<close>: the four \<open>SwOut\<close> bytes that are not \<open>0xFF\<close> and not yet listed
  are added to the node's universes, which are then sorted.
\<close>

definition addSwOut :: "byte list \<Rightarrow> nat list \<Rightarrow> nat list" where
  "addSwOut msg universes =
     sort (foldl (\<lambda>us i. case byteAt msg (190 + i) of
                      None \<Rightarrow> us
                    | Some v \<Rightarrow> if v \<noteq> 0xFF \<and> unat v \<notin> set us then us @ [unat v] else us)
            universes [0..<4])"

definition parseArtPollReply ::
  "byte list \<Rightarrow> string \<Rightarrow> int \<Rightarrow> ArtNetHandler \<Rightarrow> js_error + ArtNetHandler \<times> event list" where
  "parseArtPollReply msg rinfo now h =
     (if length msg < ARTNET_POLL_REPLY_MIN_LENGTH then Inr (h, [LogNote (ReplyTooShort (length msg))])
      else
        let shortName = takeWhile (\<lambda>b. b \<noteq> 0) (take 18 (drop 26 msg));
            estaCode = 256 * unat (msg ! 25) + unat (msg ! 24);
            longName = takeWhile (\<lambda>b. b \<noteq> 0) (take 64 (drop 44 msg));
            firmwareVersion = (unat (msg ! 16), unat (msg ! 17));
            macAddress = take 6 (drop 201 msg);
            existing = discoveredNodes h rinfo;
            node = (case existing of
                      None \<Rightarrow> \<lparr>node_ip = rinfo, node_shortName = shortName, node_longName = longName,
                                node_universes = [], node_macAddress = macAddress,
                                node_estaCode = estaCode, node_firmwareVersion = firmwareVersion,
                                node_lastSeen = now\<rparr>
                    | Some n \<Rightarrow> n\<lparr>node_lastSeen := now, node_shortName := shortName,
                                  node_longName := longName, node_estaCode := estaCode,
                                  node_firmwareVersion := firmwareVersion,
                                  node_macAddress := macAddress\<rparr>);
            node' = node\<lparr>node_universes := addSwOut msg (node_universes node)\<rparr>
        in Inr (h\<lparr>discoveredNodes := (discoveredNodes h)(rinfo \<mapsto> node')\<rparr>,
                (if existing = None then [EmitNodeDiscovered node'] else [])))"

definition handleMessage ::
  "byte list \<Rightarrow> string \<Rightarrow> int \<Rightarrow> ArtNetHandler \<Rightarrow> js_error + ArtNetHandler \<times> event list" where
  "handleMessage msg rinfo now h =
     (if length msg < ARTNET_MIN_PACKET_LENGTH then Inr (h, [LogNote (PacketTooShort (length msg))])
      else if \<not> validateHeader msg then Inr (h, [LogNote InvalidHeader])
      else
        bindE (readUInt16LE msg 8) (\<lambda>opCode.
        if opCode = ARTNET_OPCODE_DMX then parseDMXPacket msg rinfo now h
        else if opCode = ARTNET_OPCODE_POLL_REPLY then parseArtPollReply msg rinfo now h
        else Inr (h, [LogNote (UnhandledPacket opCode)])))"

text \<open>
  The socket's \<open>message\<close> listener wraps \<open>handleMessage\<close> in \<open>try\<close>/\<open>catch\<close>: a raise
  becomes an \<open>error\<close> event. \<open>receiveAll\<close> is the listener over datagrams in arrival order.
\<close>

datatype listener_event = Handled event | EmitError js_error

definition onMessage ::
  "byte list \<times> string \<times> int \<Rightarrow> ArtNetHandler \<Rightarrow> ArtNetHandler \<times> listener_event list" where
  "onMessage d h =
     (case d of (msg, rinfo, now) \<Rightarrow>
        (case handleMessage msg rinfo now h of
           Inl e \<Rightarrow> (h, [EmitError e])
         | Inr (h', evs) \<Rightarrow> (h', map Handled evs)))"

fun receiveAll ::
  "(byte list \<times> string \<times> int) list \<Rightarrow> ArtNetHandler \<Rightarrow> ArtNetHandler \<times> listener_event list" where
  "receiveAll [] h = (h, [])"
| "receiveAll (d # ds) h =
     (case onMessage d h of (h', evs) \<Rightarrow>
        (case receiveAll ds h' of (h'', evs') \<Rightarrow> (h'', evs @ evs')))"

fun receivedPackets :: "listener_event list \<Rightarrow> DMXPacket list" where
  "receivedPackets [] = []"
| "receivedPackets (Handled (EmitPacket p) # es) = p # receivedPackets es"
| "receivedPackets (e # es) = receivedPackets es"

section \<open>Art-Net transmitter (transmitter.ts)\<close>

record ArtNetTransmitter =
  tx_universe :: int
  tx_sequence :: byte
  tx_running :: bool

text \<open>
  \<open>send\<close>: the datagram built for the channel array, and the transmitter with the next
  sequence number; nothing is built while the transmitter is not running. The sequence
  number starts at 0 and is masked with \<open>0xff\<close> after every increment, so it is a byte.
\<close>

definition artnetSend ::
  "byte list \<Rightarrow> ArtNetTransmitter \<Rightarrow> js_error + ArtNetTransmitter \<times> byte list option" where
  "artnetSend channels t =
     (if \<not> tx_running t then Inr (t, None)
      else
        let dataLength = min (length channels) TOTAL_CHANNELS in
        bindE (Inr (writeBytes (replicate (18 + dataLength) 0) ARTNET_HEADER 0)) (\<lambda>p.
        bindE (writeUInt16LE p (int ARTNET_OPCODE_DMX) 8) (\<lambda>p.
        bindE (writeUInt16BE p 14 10) (\<lambda>p.
        bindE (writeUInt8 p (uint (tx_sequence t)) 12) (\<lambda>p.
        let t' = t\<lparr>tx_sequence := tx_sequence t + 1\<rparr> in
        bindE (writeUInt8 p 0 13) (\<lambda>p.
        bindE (writeUInt16LE p (tx_universe t) 14) (\<lambda>p.
        bindE (writeUInt16BE p (int dataLength) 16) (\<lambda>p.
        Inr (t', Some (writeBytes p (take dataLength channels) 18))))))))))"


section \<open>sACN handler (protocols/sacn.ts)\<close>

text \<open>
  A packet as the external \<open>sacn\<close> receiver hands it over. The payload maps 1-based channel
  numbers to percentages; they are doubles, given here by the rationals they denote. The
  priority is the unsigned byte of the wire format.
\<close>

record SACNPacket =
  sp_universe :: int
  sp_payload :: "nat \<rightharpoonup> rat"
  sp_sourceName :: "string option"
  sp_sourceAddress :: "string option"
  sp_priority :: "nat option"
  sp_sequence :: "nat option"
  sp_cid :: "byte list option"

record SACNSourceInfo =
  src_sourceName :: string
  src_sourceAddress :: "string option"
  src_priority :: nat
  src_lastSeen :: int
  src_isActive :: bool

definition SOURCE_TIMEOUT_MS :: int where
  "SOURCE_TIMEOUT_MS = 5000"

text \<open>
  \<open>sources\<close> is a JavaScript \<open>Map\<close>: it iterates in insertion order, and \<open>set\<close> on a key that
  is present replaces the value where it stands. It is an association list with that \<open>set\<close>.
\<close>

record SACNHandler =
  sacnUniverses :: "nat \<rightharpoonup> UniverseInfo"
  sources :: "(string \<times> SACNSourceInfo) list"
  activeSource :: "string option"

datatype sacn_event = SacnPacket DMXPacket | SacnUniverseDiscovered nat
  | SacnSourcesChanged "SACNSourceInfo list" | SacnInvalidUniverse int

fun sacnPackets :: "sacn_event list \<Rightarrow> DMXPacket list" where
  "sacnPackets [] = []"
| "sacnPackets (SacnPacket p # es) = p # sacnPackets es"
| "sacnPackets (e # es) = sacnPackets es"

fun mapSet :: "'k \<Rightarrow> 'v \<Rightarrow> ('k \<times> 'v) list \<Rightarrow> ('k \<times> 'v) list" where
  "mapSet k v [] = [(k, v)]"
| "mapSet k v ((k', v') # rest) = (if k' = k then (k, v) # rest else (k', v') # mapSet k v rest)"

definition hexDigit :: "nat \<Rightarrow> char" where
  "hexDigit n = ''0123456789abcdef'' ! n"

definition toHex :: "byte list \<Rightarrow> string" where
  "toHex bs = concat (map (\<lambda>b. [hexDigit (unat b div 16), hexDigit (unat b mod 16)]) bs)"

definition orUnknown :: "string option \<Rightarrow> string" where
  "orUnknown name = (case name of None \<Rightarrow> ''Unknown'' | Some n \<Rightarrow> n)"

definition getSourceKey :: "SACNPacket \<Rightarrow> string" where
  "getSourceKey packet =
     (case sp_cid packet of
        Some cid \<Rightarrow>
          if length cid > 0 then toHex cid
          else (case sp_sourceAddress packet of
                  Some addr \<Rightarrow> if addr \<noteq> [] then orUnknown (sp_sourceName packet) @ ''@'' @ addr
                               else orUnknown (sp_sourceName packet)
                | None \<Rightarrow> orUnknown (sp_sourceName packet))
      | None \<Rightarrow>
          (case sp_sourceAddress packet of
             Some addr \<Rightarrow> if addr \<noteq> [] then orUnknown (sp_sourceName packet) @ ''@'' @ addr
                          else orUnknown (sp_sourceName packet)
           | None \<Rightarrow> orUnknown (sp_sourceName packet)))"

text \<open>
  The scan for the highest priority: it starts from \<open>-1\<close> and no source, and replaces its
  candidate only on a strictly greater priority.
\<close>

fun findHighest ::
  "(string \<times> SACNSourceInfo) list \<Rightarrow> int \<Rightarrow> string option \<Rightarrow> int \<times> string option" where
  "findHighest [] highestPriority highestPrioritySource = (highestPriority, highestPrioritySource)"
| "findHighest ((name, info) # rest) highestPriority highestPrioritySource =
     (if int (src_priority info) > highestPriority
      then findHighest rest (int (src_priority info)) (Some name)
      else findHighest rest highestPriority highestPrioritySource)"

definition markActive ::
  "string option \<Rightarrow> (string \<times> SACNSourceInfo) list \<Rightarrow> (string \<times> SACNSourceInfo) list" where
  "markActive highestPrioritySource srcs =
     map (\<lambda>(name, info). (name, info\<lparr>src_isActive := (Some name = highestPrioritySource)\<rparr>)) srcs"

definition getSources :: "SACNHandler \<Rightarrow> SACNSourceInfo list" where
  "getSources h = sort_key (\<lambda>info. - int (src_priority info)) (map snd (sources h))"

definition updateSourceTracking ::
  "string \<Rightarrow> string \<Rightarrow> string option \<Rightarrow> nat \<Rightarrow> int \<Rightarrow> SACNHandler
     \<Rightarrow> bool \<times> SACNHandler \<times> sacn_event list" where
  "updateSourceTracking sourceKey sourceName sourceAddress priority now h =
     (let existingSource = map_of (sources h) sourceKey;
          wasNewSource = (existingSource = None);
          sourceInfo = \<lparr>src_sourceName = sourceName, src_sourceAddress = sourceAddress,
                        src_priority = priority, src_lastSeen = now, src_isActive = False\<rparr>;
          srcs = mapSet sourceKey sourceInfo (sources h);
          highestPrioritySource = snd (findHighest srcs (- 1) None);
          activeChanged = (activeSource h \<noteq> highestPrioritySource);
          h' = h\<lparr>sources := markActive highestPrioritySource srcs,
                 activeSource := highestPrioritySource\<rparr>
      in (Some sourceKey = highestPrioritySource, h',
          if wasNewSource \<or> activeChanged then [SacnSourcesChanged (getSources h')] else []))"

definition cleanupStaleSources :: "int \<Rightarrow> SACNHandler \<Rightarrow> SACNHandler \<times> sacn_event list" where
  "cleanupStaleSources now h =
     (let kept = filter (\<lambda>(name, info). \<not> (now - src_lastSeen info > SOURCE_TIMEOUT_MS)) (sources h);
          removed = (length kept < length (sources h))
      in if removed then
           let h' = (if length kept > 0
                     then let highestPrioritySource = snd (findHighest kept (- 1) None)
                          in h\<lparr>sources := markActive highestPrioritySource kept,
                               activeSource := highestPrioritySource\<rparr>
                     else h\<lparr>sources := kept, activeSource := None\<rparr>)
           in (h', [SacnSourcesChanged (getSources h')])
         else (h, []))"

text \<open>
  The arithmetic of doubles. \<open>toDouble q\<close> is the double nearest to the rational \<open>q\<close>, ties to
  the even significand: 53 significant bits, the exponent not below that of the subnormal
  numbers, and \<open>None\<close> for a magnitude that rounds to infinity. A quotient or a product of
  two doubles is \<open>toDouble\<close> of the exact quotient or product.
\<close>

function bitLength :: "int \<Rightarrow> int" where
  "bitLength n = (if n \<le> 0 then 0 else 1 + bitLength (n div 2))"
  by pat_completeness auto

termination
  by (relation "measure nat") auto

declare bitLength.simps [simp del]

definition pow2 :: "int \<Rightarrow> rat" where
  "pow2 k = (if k \<ge> 0 then 2 ^ nat k else 1 / 2 ^ nat (- k))"

definition floorLog2 :: "rat \<Rightarrow> int" where
  "floorLog2 a =
     (let (n, d) = quotient_of a;
          k = bitLength n - bitLength d
      in if pow2 k \<le> a then k else k - 1)"

definition roundHalfEven :: "rat \<Rightarrow> int" where
  "roundHalfEven t =
     (let f = \<lfloor>t\<rfloor>; r = t - of_int f
      in if r > 1 / 2 \<or> (r = 1 / 2 \<and> odd f) then f + 1 else f)"

definition toDouble :: "rat \<Rightarrow> rat option" where
  "toDouble q =
     (if q = 0 then Some 0
      else
        let a = \<bar>q\<bar>;
            e = max (floorLog2 a) (- 1022);
            scale = pow2 (e - 52);
            r = of_int (roundHalfEven (a / scale)) * scale
        in if r \<ge> pow2 1024 then None else Some (sgn q * r))"

text \<open>
  \<open>channels[i] = Math.round((value / 100) * 255)\<close>: the quotient and the product are rounded
  to doubles, \<open>Math.round\<close> is the floor of its argument plus one half, and the store into
  the \<open>Uint8Array\<close> keeps the integer modulo 256, and 0 for an infinite value.
\<close>

definition percentToDmx :: "rat \<Rightarrow> byte" where
  "percentToDmx v =
     (case toDouble (v / 100) of
        None \<Rightarrow> 0
      | Some fraction \<Rightarrow>
          (case toDouble (fraction * 255) of
             None \<Rightarrow> 0
           | Some scaled \<Rightarrow> word_of_int \<lfloor>scaled + 1 / 2\<rfloor>))"

definition sacnChannels :: "(nat \<rightharpoonup> rat) \<Rightarrow> byte list" where
  "sacnChannels payload =
     map (\<lambda>i. case payload (i + 1) of None \<Rightarrow> 0 | Some v \<Rightarrow> percentToDmx v) [0..<TOTAL_CHANNELS]"

definition handlePacket :: "SACNPacket \<Rightarrow> int \<Rightarrow> SACNHandler \<Rightarrow> SACNHandler \<times> sacn_event list" where
  "handlePacket packet now h =
     (let universe = sp_universe packet in
      if \<not> isValidUniverse universe then (h, [SacnInvalidUniverse universe])
      else
        let (h1, discovered) =
              (case sacnUniverses h (nat universe) of
                 None \<Rightarrow>
                   (h\<lparr>sacnUniverses := (sacnUniverses h)(nat universe \<mapsto>
                        \<lparr>ui_universe = nat universe, ui_lastSeen = now, ui_packetCount = 1,
                         ui_source = sp_sourceName packet\<rparr>)\<rparr>,
                    [SacnUniverseDiscovered (nat universe)])
               | Some existingInfo \<Rightarrow>
                   (h\<lparr>sacnUniverses := (sacnUniverses h)(nat universe \<mapsto>
                        existingInfo\<lparr>ui_lastSeen := now,
                                     ui_packetCount := ui_packetCount existingInfo + 1,
                                     ui_source := (case sp_sourceName packet of
                                                     Some n \<Rightarrow> if n \<noteq> [] then Some n
                                                               else ui_source existingInfo
                                                   | None \<Rightarrow> ui_source existingInfo)\<rparr>)\<rparr>,
                    []));
            sourceName = orUnknown (sp_sourceName packet);
            sourceKey = getSourceKey packet;
            priority = (case sp_priority packet of None \<Rightarrow> 100 | Some p \<Rightarrow> p);
            (shouldEmit, h2, changed) =
              updateSourceTracking sourceKey sourceName (sp_sourceAddress packet) priority now h1
        in if \<not> shouldEmit then (h2, discovered @ changed)
           else
             let dmxPacket = \<lparr>pkt_universe = nat universe,
                              pkt_channels = sacnChannels (sp_payload packet),
                              pkt_source = sp_sourceName packet, pkt_priority = sp_priority packet,
                              pkt_sequence = sp_sequence packet, pkt_timestamp = now\<rparr>
             in (h2, discovered @ changed @ [SacnPacket dmxPacket]))"

definition initialSACNHandler :: SACNHandler where
  "initialSACNHandler = \<lparr>sacnUniverses = Map.empty, sources = [], activeSource = None\<rparr>"

text \<open>
  The invariant of the arbitrator. The keys of the source table are distinct (it is a
  \<open>Map\<close>). An empty table has no active source and no flagged entry; a table that is
  not empty has exactly one flagged entry. An entry is flagged if and only if
  \<open>activeSource\<close> names its key, and a flagged entry has the greatest priority of the table.
\<close>

definition arbitrationInvariant :: "SACNHandler \<Rightarrow> bool" where
  "arbitrationInvariant h \<longleftrightarrow>
     distinct (map fst (sources h)) \<and>
     length (filter (\<lambda>x. src_isActive (snd x)) (sources h)) = (if sources h = [] then 0 else 1) \<and>
     (sources h = [] \<longrightarrow> activeSource h = None) \<and>
     (\<forall>x \<in> set (sources h). src_isActive (snd x) \<longleftrightarrow> activeSource h = Some (fst x)) \<and>
     (\<forall>x \<in> set (sources h). src_isActive (snd x) \<longrightarrow>
        (\<forall>y \<in> set (sources h). src_priority (snd y) \<le> src_priority (snd x)))"

text \<open>The key and the priority of every entry of a source table, in the order of the table.\<close>

definition priorityTable :: "(string \<times> SACNSourceInfo) list \<Rightarrow> (string \<times> nat) list" where
  "priorityTable srcs = map (\<lambda>x. (fst x, src_priority (snd x))) srcs"

text \<open>
  The election as a specification, independent of the scan of the code: of the entries
  whose priority is greater than or equal to every priority of the table, the key of the
  one that stands first. \<open>electionInvariant\<close> says that the keys of the table are distinct
  and that \<open>activeSource\<close> is the key elected in this way (none for the empty table).
\<close>

definition firstHighestKey :: "(string \<times> nat) list \<Rightarrow> string option" where
  "firstHighestKey table =
     (case filter (\<lambda>x. \<forall>y \<in> set table. snd y \<le> snd x) table of
        [] \<Rightarrow> None
      | x # rest \<Rightarrow> Some (fst x))"

definition electionInvariant :: "SACNHandler \<Rightarrow> bool" where
  "electionInvariant h \<longleftrightarrow>
     distinct (map fst (sources h)) \<and> activeSource h = firstHighestKey (priorityTable (sources h))"

text \<open>The sweep removes an entry when it was last seen more than the timeout ago.\<close>

definition isStale :: "int \<Rightarrow> SACNSourceInfo \<Rightarrow> bool" where
  "isStale now info \<longleftrightarrow> now - src_lastSeen info > SOURCE_TIMEOUT_MS"

text \<open>The priority that \<open>handlePacket\<close> gives a packet: 100 when the packet has none.\<close>

definition packetPriority :: "SACNPacket \<Rightarrow> nat" where
  "packetPriority packet = (case sp_priority packet of None \<Rightarrow> 100 | Some p \<Rightarrow> p)"

text \<open>The entry that \<open>updateSourceTracking\<close> stores for the source of a packet.\<close>

definition trackedInfo :: "SACNPacket \<Rightarrow> int \<Rightarrow> SACNSourceInfo" where
  "trackedInfo packet now = \<lparr>src_sourceName = orUnknown (sp_sourceName packet),
                    src_sourceAddress = sp_sourceAddress packet,
                    src_priority = packetPriority packet,
                    src_lastSeen = now, src_isActive = False\<rparr>"

section \<open>Recorder (recorder.ts)\<close>

definition HEADER_SIZE :: nat where "HEADER_SIZE = 32"
definition SNAPSHOT_INTERVAL :: int where "SNAPSHOT_INTERVAL = 5000"
definition WRITE_BUFFER_SIZE :: nat where "WRITE_BUFFER_SIZE = 64 * 1024"

definition DMXREC_MAGIC :: "byte list" where "DMXREC_MAGIC = [0x44, 0x4D, 0x58, 0x52]"
definition DMXREC_VERSION :: nat where "DMXREC_VERSION = 1"
definition HAS_SNAPSHOTS :: nat where "HAS_SNAPSHOTS = 0x01"
definition FrameType_SNAPSHOT :: nat where "FrameType_SNAPSHOT = 0xfe"
definition FrameType_EXTENDED :: nat where "FrameType_EXTENDED = 0xff"

text \<open>
  \<open>encodeVarint\<close>. JavaScript's \<open>value & 0x7F\<close> keeps the low seven bits of the integer and
  \<open>value >>>= 7\<close> first reduces the value to 32 bits, unsigned.
\<close>

function encodeVarint :: "int \<Rightarrow> byte list" where
  "encodeVarint v =
     (if v > 0x7F then word_of_int (v mod 128 + 128) # encodeVarint ((v mod 4294967296) div 128)
      else [word_of_int (v mod 128)])"
  by pat_completeness auto
termination
proof (relation "measure nat")
  show "wf (measure nat)" by simp
next
  fix v :: int
  assume v: "127 < v"
  have "(v mod 4294967296) div 128 \<le> v div 128"
    using v by (intro zdiv_mono1) (simp_all add: zmod_le_nonneg_dividend)
  also have "v div 128 < v" using v by (simp add: int_div_less_self)
  finally show "((v mod 4294967296) div 128, v) \<in> measure nat" using v by simp
qed

declare encodeVarint.simps [simp del]

text \<open>
  \<open>decodeVarint\<close>. \<open>value |= (byte & 0x7F) << shift\<close> works on 32-bit integers: the shift
  count is taken modulo 32, and the result is read as a signed 32-bit number.
\<close>

fun decodeVarintLoop :: "byte list \<Rightarrow> 32 word \<Rightarrow> nat \<Rightarrow> nat \<Rightarrow> 32 word \<times> nat" where
  "decodeVarintLoop [] v shift bytesRead = (v, bytesRead)"
| "decodeVarintLoop (b # rest) v shift bytesRead =
     (let v' = v OR push_bit (shift mod 32) (ucast (b AND 0x7F))
      in if b AND 0x80 = 0 then (v', bytesRead + 1)
         else decodeVarintLoop rest v' (shift + 7) (bytesRead + 1))"

definition decodeVarint :: "byte list \<Rightarrow> nat \<Rightarrow> int \<times> nat" where
  "decodeVarint buffer offset =
     (case decodeVarintLoop (drop offset buffer) 0 0 0 of (v, bytesRead) \<Rightarrow> (sint v, bytesRead))"

datatype RecordingState = RecIdle | RecRecording | RecPaused

datatype Protocol = Sacn | Artnet

text \<open>
  The recorder. \<open>rec_fileHandle\<close> tells whether the file handle is set, \<open>rec_file\<close> is the
  content of the file it writes, and \<open>rec_writes\<close> logs every \<open>fs.writeSync\<close> with the file
  position it writes at. The file name, made from the wall clock, is left out.
\<close>

record DMXRecorder =
  rec_state :: RecordingState
  rec_fileHandle :: bool
  rec_file :: "byte list"
  rec_writes :: "(nat \<times> byte list) list"
  rec_writeBuffer :: "byte list"
  rec_writeOffset :: nat
  rec_previousChannels :: "byte list"
  rec_startTime :: int
  rec_lastFrameTime :: int
  rec_lastSnapshotTime :: int
  rec_frameCount :: nat
  rec_bytesWritten :: nat
  rec_protocol :: Protocol
  rec_universe :: int

definition newRecorder :: DMXRecorder where
  "newRecorder = \<lparr>rec_state = RecIdle, rec_fileHandle = False, rec_file = [], rec_writes = [],
     rec_writeBuffer = replicate WRITE_BUFFER_SIZE 0, rec_writeOffset = 0,
     rec_previousChannels = replicate TOTAL_CHANNELS 0, rec_startTime = 0, rec_lastFrameTime = 0,
     rec_lastSnapshotTime = 0, rec_frameCount = 0, rec_bytesWritten = 0,
     rec_protocol = Sacn, rec_universe = 1\<rparr>"

text \<open>\<open>fs.writeSync(fd, data)\<close> writes at the end of the file; with a position it overwrites there.\<close>

definition fsWrite :: "byte list \<Rightarrow> DMXRecorder \<Rightarrow> DMXRecorder" where
  "fsWrite data r = r\<lparr>rec_file := rec_file r @ data,
                       rec_writes := rec_writes r @ [(length (rec_file r), data)]\<rparr>"

definition fsWriteAt :: "nat \<Rightarrow> byte list \<Rightarrow> DMXRecorder \<Rightarrow> DMXRecorder" where
  "fsWriteAt pos data r =
     r\<lparr>rec_file := take pos (rec_file r) @ data @ drop (pos + length data) (rec_file r),
       rec_writes := rec_writes r @ [(pos, data)]\<rparr>"

definition writeBigInt64LE :: "byte list \<Rightarrow> int \<Rightarrow> nat \<Rightarrow> js_error + byte list" where
  "writeBigInt64LE buf v off =
     (if - (2 ^ 63) \<le> v \<and> v < 2 ^ 63 \<and> off + 8 \<le> length buf
      then Inr (writeBytes buf (map (\<lambda>i. word_of_int (v div 256 ^ i)) [0..<8]) off)
      else Inl RangeError)"

definition createHeader :: "int \<Rightarrow> DMXRecorder \<Rightarrow> js_error + byte list" where
  "createHeader duration r =
     bindE (Inr (writeBytes (replicate HEADER_SIZE 0) DMXREC_MAGIC 0)) (\<lambda>header.
     bindE (writeUInt8 header (int DMXREC_VERSION) 4) (\<lambda>header.
     bindE (writeUInt8 header (int HAS_SNAPSHOTS) 5) (\<lambda>header.
     bindE (writeUInt8 header (if rec_protocol r = Sacn then 0 else 1) 6) (\<lambda>header.
     bindE (writeUInt16LE header (rec_universe r) 7) (\<lambda>header.
     bindE (writeBigInt64LE header (rec_startTime r) 9) (\<lambda>header.
     bindE (writeUInt32LE header duration 17) (\<lambda>header.
     writeUInt32LE header (int (rec_frameCount r)) 21)))))))"

definition flushBuffer :: "DMXRecorder \<Rightarrow> DMXRecorder" where
  "flushBuffer r =
     (if rec_writeOffset r > 0 \<and> rec_fileHandle r
      then (fsWrite (take (rec_writeOffset r) (rec_writeBuffer r)) r)
             \<lparr>rec_bytesWritten := rec_bytesWritten r + rec_writeOffset r, rec_writeOffset := 0\<rparr>
      else r)"

definition appendByte :: "byte \<Rightarrow> DMXRecorder \<Rightarrow> DMXRecorder" where
  "appendByte v r =
     (let r1 = (if rec_writeOffset r \<ge> length (rec_writeBuffer r) - 1 then flushBuffer r else r)
      in r1\<lparr>rec_writeBuffer := (rec_writeBuffer r1)[rec_writeOffset r1 := v],
            rec_writeOffset := rec_writeOffset r1 + 1\<rparr>)"

definition appendUint16 :: "nat \<Rightarrow> DMXRecorder \<Rightarrow> js_error + DMXRecorder" where
  "appendUint16 v r =
     (let r1 = (if rec_writeOffset r \<ge> length (rec_writeBuffer r) - 2 then flushBuffer r else r)
      in bindE (writeUInt16LE (rec_writeBuffer r1) (int v) (rec_writeOffset r1)) (\<lambda>buf.
         Inr (r1\<lparr>rec_writeBuffer := buf, rec_writeOffset := rec_writeOffset r1 + 2\<rparr>)))"

definition appendToBuffer :: "byte list \<Rightarrow> DMXRecorder \<Rightarrow> DMXRecorder" where
  "appendToBuffer data r =
     (let r1 = (if rec_writeOffset r + length data \<ge> length (rec_writeBuffer r)
                then flushBuffer r else r)
      in if length data \<ge> length (rec_writeBuffer r1)
         then (if rec_fileHandle r1
               then (fsWrite data r1)\<lparr>rec_bytesWritten := rec_bytesWritten r1 + length data\<rparr>
               else r1)
         else r1\<lparr>rec_writeBuffer := writeBytes (rec_writeBuffer r1) data (rec_writeOffset r1),
                 rec_writeOffset := rec_writeOffset r1 + length data\<rparr>)"

text \<open>\<open>startRecording\<close> at wall-clock time \<open>now\<close>: the header is created before the state is reset.\<close>

definition startRecording :: "Protocol \<Rightarrow> int \<Rightarrow> int \<Rightarrow> DMXRecorder \<Rightarrow> js_error + DMXRecorder" where
  "startRecording protocol universe now r =
     (if rec_state r = RecRecording then Inl AlreadyRecording
      else
        let r1 = r\<lparr>rec_protocol := protocol, rec_universe := universe\<rparr>;
            r2 = r1\<lparr>rec_fileHandle := True, rec_file := [], rec_writes := []\<rparr>
        in bindE (createHeader 0 r2) (\<lambda>headerBuffer.
           let r3 = (fsWrite headerBuffer r2)\<lparr>rec_bytesWritten := HEADER_SIZE\<rparr>
           in Inr (r3\<lparr>rec_previousChannels := replicate (length (rec_previousChannels r3)) 0,
                      rec_startTime := now, rec_lastFrameTime := now, rec_lastSnapshotTime := now,
                      rec_frameCount := 0, rec_writeOffset := 0, rec_state := RecRecording\<rparr>)))"

text \<open>\<open>stopRecording\<close> at wall-clock time \<open>now\<close>; it returns the recorder and the measured duration.\<close>

definition stopRecording :: "int \<Rightarrow> DMXRecorder \<Rightarrow> js_error + DMXRecorder \<times> int" where
  "stopRecording now r =
     (if rec_state r \<noteq> RecRecording then Inl NotRecording
      else
        let r1 = flushBuffer r;
            duration = now - rec_startTime r1
        in bindE (if rec_fileHandle r1
                  then bindE (createHeader duration r1) (\<lambda>header.
                       Inr ((fsWriteAt 0 (take HEADER_SIZE header) r1)\<lparr>rec_fileHandle := False\<rparr>))
                  else Inr r1) (\<lambda>r2.
           Inr (r2\<lparr>rec_state := RecIdle\<rparr>, duration)))"

text \<open>\<open>TypedArray.prototype.set\<close>: a source longer than the target raises.\<close>

definition typedSet :: "byte list \<Rightarrow> byte list \<Rightarrow> js_error + byte list" where
  "typedSet target source =
     (if length source > length target then Inl RangeError
      else Inr (source @ drop (length source) target))"

definition channelOr0 :: "byte list \<Rightarrow> nat \<Rightarrow> byte" where
  "channelOr0 channels i = (case byteAt channels i of None \<Rightarrow> 0 | Some v \<Rightarrow> v)"

definition computeChanges :: "byte list \<Rightarrow> byte list \<Rightarrow> (nat \<times> byte) list" where
  "computeChanges channels previousChannels =
     map (\<lambda>i. (i, channelOr0 channels i))
       (filter (\<lambda>i. channelOr0 channels i \<noteq> channelOr0 previousChannels i) [0..<TOTAL_CHANNELS])"

fun appendChanges :: "(nat \<times> byte) list \<Rightarrow> DMXRecorder \<Rightarrow> js_error + DMXRecorder" where
  "appendChanges [] r = Inr r"
| "appendChanges ((channel, v) # rest) r =
     bindE (appendUint16 channel r) (\<lambda>r1. appendChanges rest (appendByte v r1))"

definition writeDeltaFrame :: "(nat \<times> byte) list \<Rightarrow> int \<Rightarrow> DMXRecorder \<Rightarrow> js_error + DMXRecorder" where
  "writeDeltaFrame changes deltaTime r =
     (let r1 = appendToBuffer (encodeVarint deltaTime) r
      in bindE (if length changes < FrameType_SNAPSHOT
                then Inr (appendByte (word_of_nat (length changes)) r1)
                else appendUint16 (length changes) (appendByte (word_of_nat FrameType_EXTENDED) r1))
           (\<lambda>r2. appendChanges changes r2))"

definition writeSnapshotFrame :: "byte list \<Rightarrow> int \<Rightarrow> DMXRecorder \<Rightarrow> DMXRecorder" where
  "writeSnapshotFrame channels deltaTime r =
     appendToBuffer (take TOTAL_CHANNELS channels)
       (appendByte (word_of_nat FrameType_SNAPSHOT) (appendToBuffer (encodeVarint deltaTime) r))"

definition isFirstFrame :: "DMXRecorder \<Rightarrow> bool" where
  "isFirstFrame r = (rec_frameCount r = 0)"

definition frameDeltaTime :: "int \<Rightarrow> DMXRecorder \<Rightarrow> int" where
  "frameDeltaTime now r = (if isFirstFrame r then 0 else now - rec_lastFrameTime r)"

definition needsSnapshot :: "int \<Rightarrow> DMXRecorder \<Rightarrow> bool" where
  "needsSnapshot now r = (isFirstFrame r \<or> now - rec_lastSnapshotTime r \<ge> SNAPSHOT_INTERVAL)"

definition recordFrame :: "int \<Rightarrow> byte list \<Rightarrow> DMXRecorder \<Rightarrow> js_error + DMXRecorder" where
  "recordFrame now channels r =
     (if rec_state r \<noteq> RecRecording then Inr r
      else
        let deltaTime = frameDeltaTime now r in
        if needsSnapshot now r then
          let r1 = (writeSnapshotFrame channels deltaTime r)\<lparr>rec_lastSnapshotTime := now\<rparr>
          in bindE (typedSet (rec_previousChannels r1) channels) (\<lambda>prev.
             Inr (r1\<lparr>rec_previousChannels := prev, rec_lastFrameTime := now,
                      rec_frameCount := rec_frameCount r1 + 1\<rparr>))
        else
          let changes = computeChanges channels (rec_previousChannels r) in
          if length changes > 0 then
            bindE (writeDeltaFrame changes deltaTime r) (\<lambda>r1.
            bindE (typedSet (rec_previousChannels r1) channels) (\<lambda>prev.
            Inr (r1\<lparr>rec_previousChannels := prev, rec_lastFrameTime := now,
                     rec_frameCount := rec_frameCount r1 + 1\<rparr>)))
          else Inr r)"

text \<open>
  The bytes a frame adds to the stream, as \<open>writeSnapshotFrame\<close> and \<open>writeDeltaFrame\<close> append
  them, and the bytes of a header. The lemmas below relate the buffered writes to them.
\<close>

definition u16le :: "nat \<Rightarrow> byte list" where
  "u16le v = [word_of_int (int v mod 256), word_of_int (int v div 256)]"

definition snapshotFrameBytes :: "int \<Rightarrow> byte list \<Rightarrow> byte list" where
  "snapshotFrameBytes deltaTime channels =
     encodeVarint deltaTime @ [word_of_nat FrameType_SNAPSHOT] @ take TOTAL_CHANNELS channels"

definition changeCountBytes :: "nat \<Rightarrow> byte list" where
  "changeCountBytes n =
     (if n < FrameType_SNAPSHOT then [word_of_nat n] else word_of_nat FrameType_EXTENDED # u16le n)"

definition changeBytes :: "(nat \<times> byte) list \<Rightarrow> byte list" where
  "changeBytes changes = concat (map (\<lambda>(channel, v). u16le channel @ [v]) changes)"

definition deltaFrameBytes :: "int \<Rightarrow> (nat \<times> byte) list \<Rightarrow> byte list" where
  "deltaFrameBytes deltaTime changes =
     encodeVarint deltaTime @ changeCountBytes (length changes) @ changeBytes changes"

definition u32le :: "int \<Rightarrow> byte list" where
  "u32le v = [word_of_int (v mod 256), word_of_int (v div 256 mod 256),
              word_of_int (v div 65536 mod 256), word_of_int (v div 16777216)]"

definition headerBytes :: "Protocol \<Rightarrow> int \<Rightarrow> int \<Rightarrow> int \<Rightarrow> nat \<Rightarrow> byte list" where
  "headerBytes protocol universe startTime duration frameCount =
     DMXREC_MAGIC @ [1, 1, if protocol = Sacn then 0 else 1] @
     [word_of_int (universe mod 256), word_of_int (universe div 256)] @
     map (\<lambda>i. word_of_int (startTime div 256 ^ i)) [0..<8] @
     u32le duration @ u32le (int frameCount) @ replicate 7 0"

text \<open>The frame stream so far: what is in the file after the header, then what is buffered.\<close>

definition stream :: "DMXRecorder \<Rightarrow> byte list" where
  "stream r = drop HEADER_SIZE (rec_file r) @ take (rec_writeOffset r) (rec_writeBuffer r)"

definition bufferInvariant :: "DMXRecorder \<Rightarrow> bool" where
  "bufferInvariant r \<longleftrightarrow>
     rec_fileHandle r \<and> length (rec_writeBuffer r) = WRITE_BUFFER_SIZE \<and>
     rec_writeOffset r < WRITE_BUFFER_SIZE \<and> HEADER_SIZE \<le> length (rec_file r)"

text \<open>
  \<open>appended r r' data\<close>: \<open>r'\<close> is \<open>r\<close> with \<open>data\<close> added to the frame stream; only the file
  behind the header, the write log (at positions behind the header), the buffer and the
  byte counter differ.
\<close>

definition appended :: "DMXRecorder \<Rightarrow> DMXRecorder \<Rightarrow> byte list \<Rightarrow> bool" where
  "appended r r' data \<longleftrightarrow>
     bufferInvariant r' \<and> stream r' = stream r @ data \<and>
     take HEADER_SIZE (rec_file r') = take HEADER_SIZE (rec_file r) \<and>
     (\<exists>ws. rec_writes r' = rec_writes r @ ws \<and> (\<forall>w \<in> set ws. HEADER_SIZE \<le> fst w)) \<and>
     r' = r\<lparr>rec_file := rec_file r', rec_writes := rec_writes r',
            rec_writeBuffer := rec_writeBuffer r', rec_writeOffset := rec_writeOffset r',
            rec_bytesWritten := rec_bytesWritten r'\<rparr>"

text \<open>The caller's loop: one \<open>recordFrame\<close> per received channel array, in arrival order.\<close>

fun recordFrames :: "(int \<times> byte list) list \<Rightarrow> DMXRecorder \<Rightarrow> js_error + DMXRecorder" where
  "recordFrames [] r = Inr r"
| "recordFrames ((now, channels) # rest) r = bindE (recordFrame now channels r) (recordFrames rest)"

section \<open>Player (recorder.ts)\<close>

datatype PlaybackState = PlayIdle | PlayPlaying | PlayPaused | PlayFinished

record RecordingHeader =
  hdr_magic :: "byte list"
  hdr_version :: nat
  hdr_flags :: nat
  hdr_protocol :: nat
  hdr_universe :: nat
  hdr_startTime :: int
  hdr_duration :: nat
  hdr_frameCount :: nat

record RecordingFrame =
  fr_deltaTime :: int
  fr_changes :: "(nat \<times> byte) list"
  fr_isSnapshot :: bool
  fr_snapshotData :: "byte list option"

record FrameIndex =
  fi_offset :: nat
  fi_position :: int
  fi_isSnapshot :: bool

text \<open>
  The player. \<open>pl_pendingFrame\<close> is the one-shot timer of \<open>scheduleNextFrame\<close> with the
  frame its callback holds. Wall-clock quantities (\<open>playbackStartTime\<close>, the speed and the
  timer delay computed from them) are left out: they decide when a timer fires, not what
  it does. The callbacks are taken as registered; an event carries the channel values at
  the time it is raised.
\<close>

record DMXPlayer =
  pl_state :: PlaybackState
  pl_header :: "RecordingHeader option"
  pl_frameData :: "byte list option"
  pl_frameOffset :: nat
  pl_channels :: "byte list"
  pl_currentFrame :: nat
  pl_currentPosition :: int
  pl_pausedPosition :: int
  pl_loopEnabled :: bool
  pl_frameIndex :: "FrameIndex list"
  pl_frameIndexBuilt :: bool
  pl_pendingFrame :: "RecordingFrame option"

datatype player_event = FrameEvent "byte list" | PositionEvent int nat
  | StateChangeEvent PlaybackState | FinishedEvent

fun emittedFrames :: "player_event list \<Rightarrow> byte list list" where
  "emittedFrames [] = []"
| "emittedFrames (FrameEvent channels # es) = channels # emittedFrames es"
| "emittedFrames (e # es) = emittedFrames es"

definition newPlayer :: DMXPlayer where
  "newPlayer = \<lparr>pl_state = PlayIdle, pl_header = None, pl_frameData = None, pl_frameOffset = 0,
     pl_channels = replicate TOTAL_CHANNELS 0, pl_currentFrame = 0, pl_currentPosition = 0,
     pl_pausedPosition = 0, pl_loopEnabled = False, pl_frameIndex = [], pl_frameIndexBuilt = False,
     pl_pendingFrame = None\<rparr>"

definition setState :: "PlaybackState \<Rightarrow> DMXPlayer \<Rightarrow> DMXPlayer \<times> player_event list" where
  "setState newState p =
     (if pl_state p \<noteq> newState then (p\<lparr>pl_state := newState\<rparr>, [StateChangeEvent newState])
      else (p, []))"

definition readBigInt64LE :: "byte list \<Rightarrow> nat \<Rightarrow> js_error + int" where
  "readBigInt64LE buf off =
     (if off + 8 \<le> length buf
      then Inr (sint (word_of_nat (foldr (\<lambda>b acc. unat b + 256 * acc) (take 8 (drop off buf)) 0) :: 64 word))
      else Inl RangeError)"

text \<open>
  \<open>Number\<close> of a 64-bit integer: the nearest double, ties to the even significand. A double
  keeps 53 significant bits, so the value is unchanged below \<open>2 ^ 53\<close> in magnitude;
  above, the lowest \<open>e\<close> bits are rounded away, \<open>e\<close> being at most 11 for a 64-bit integer.
\<close>

definition numberOfBigInt :: "int \<Rightarrow> int" where
  "numberOfBigInt v =
     (let a = \<bar>v\<bar>;
          e = length (filter (\<lambda>k. 2 ^ (53 + k) \<le> a) [0..<11]);
          q = a div 2 ^ e;
          r = a mod 2 ^ e;
          m = (if 2 * r > 2 ^ e \<or> (2 * r = 2 ^ e \<and> odd q) then q + 1 else q)
      in sgn v * (m * 2 ^ e))"

text \<open>\<open>parseHeader\<close>. Decoding the magic bytes as ASCII clears the high bit of each byte.\<close>

definition parseHeader :: "byte list \<Rightarrow> js_error + RecordingHeader" where
  "parseHeader buffer =
     (if length buffer < HEADER_SIZE then Inl FileTooSmall
      else
        let magic = map (\<lambda>b. b AND 0x7F) (take 4 buffer) in
        if magic \<noteq> DMXREC_MAGIC then Inl BadMagic
        else
          bindE (readUInt8 buffer 4) (\<lambda>version.
          if version > DMXREC_VERSION then Inl (UnsupportedRecordingVersion version)
          else
            bindE (readUInt8 buffer 5) (\<lambda>flags.
            bindE (readUInt8 buffer 6) (\<lambda>protocol.
            bindE (readUInt16LE buffer 7) (\<lambda>universe.
            bindE (readBigInt64LE buffer 9) (\<lambda>startTimeBigInt.
            bindE (readUInt32LE buffer 17) (\<lambda>duration.
            bindE (readUInt32LE buffer 21) (\<lambda>frameCount.
            Inr \<lparr>hdr_magic = magic, hdr_version = version, hdr_flags = flags,
                 hdr_protocol = protocol, hdr_universe = universe,
                 hdr_startTime = numberOfBigInt startTimeBigInt,
                 hdr_duration = duration, hdr_frameCount = frameCount\<rparr>))))))))"

definition stop :: "DMXPlayer \<Rightarrow> DMXPlayer \<times> player_event list" where
  "stop p =
     (let p1 = p\<lparr>pl_pendingFrame := None, pl_frameOffset := 0, pl_currentFrame := 0,
                 pl_currentPosition := 0, pl_pausedPosition := 0,
                 pl_channels := replicate (length (pl_channels p)) 0\<rparr>;
          (p2, changed) = setState PlayIdle p1
      in (p2, changed @
              (case pl_header p2 of None \<Rightarrow> [] | Some h \<Rightarrow> [PositionEvent 0 (hdr_duration h)]) @
              [FrameEvent (pl_channels p2)]))"

text \<open>\<open>load\<close> of the bytes read from the file.\<close>

definition load :: "byte list \<Rightarrow> DMXPlayer \<Rightarrow> js_error + DMXPlayer \<times> player_event list" where
  "load fileBuffer p =
     (let (p1, stopped) = (if pl_state p = PlayPlaying then stop p else (p, [])) in
      bindE (parseHeader fileBuffer) (\<lambda>header.
      Inr (p1\<lparr>pl_header := Some header, pl_frameData := Some (drop HEADER_SIZE fileBuffer),
               pl_frameOffset := 0, pl_frameIndex := [], pl_frameIndexBuilt := False,
               pl_channels := replicate (length (pl_channels p1)) 0, pl_currentFrame := 0,
               pl_currentPosition := 0, pl_state := PlayIdle\<rparr>, stopped)))"

text \<open>
  \<open>readNextFrame\<close>, first on the bytes and an offset: the frame read, if any, and the
  offset behind it. A truncated change list makes \<open>readUInt16LE\<close> raise.
\<close>

fun readChanges :: "byte list \<Rightarrow> nat \<Rightarrow> nat \<Rightarrow> js_error + (nat \<times> byte) list \<times> nat" where
  "readChanges data off 0 = Inr ([], off)"
| "readChanges data off (Suc n) =
     bindE (readUInt16LE data off) (\<lambda>channel.
     bindE (readChanges data (off + 3) n) (\<lambda>(rest, off').
     Inr ((case byteAt data (off + 2) of None \<Rightarrow> rest | Some v \<Rightarrow> (channel, v) # rest), off')))"

definition readFrameAt :: "byte list \<Rightarrow> nat \<Rightarrow> js_error + RecordingFrame option \<times> nat" where
  "readFrameAt data off =
     (if off \<ge> length data then Inr (None, off)
      else
        case decodeVarint data off of (deltaTime, deltaBytes) \<Rightarrow>
        (case byteAt data (off + deltaBytes) of
           None \<Rightarrow> Inr (None, off + deltaBytes + 1)
         | Some changeCount \<Rightarrow>
             if unat changeCount = FrameType_SNAPSHOT
             then Inr (Some \<lparr>fr_deltaTime = deltaTime, fr_changes = [], fr_isSnapshot = True,
                              fr_snapshotData =
                                Some (take TOTAL_CHANNELS (drop (off + deltaBytes + 1) data))\<rparr>,
                       off + deltaBytes + 1 + TOTAL_CHANNELS)
             else
               bindE (if unat changeCount = FrameType_EXTENDED
                      then bindE (readUInt16LE data (off + deltaBytes + 1)) (\<lambda>n.
                           Inr (n, off + deltaBytes + 3))
                      else Inr (unat changeCount, off + deltaBytes + 1)) (\<lambda>(actualChangeCount, off3).
               bindE (readChanges data off3 actualChangeCount) (\<lambda>(changes, off4).
               Inr (Some \<lparr>fr_deltaTime = deltaTime, fr_changes = changes, fr_isSnapshot = False,
                           fr_snapshotData = None\<rparr>, off4)))))"

definition readNextFrame :: "DMXPlayer \<Rightarrow> js_error + RecordingFrame option \<times> DMXPlayer" where
  "readNextFrame p =
     (case pl_frameData p of
        None \<Rightarrow> Inr (None, p)
      | Some data \<Rightarrow>
          bindE (readFrameAt data (pl_frameOffset p)) (\<lambda>(frame, off).
          Inr (frame, p\<lparr>pl_frameOffset := off\<rparr>)))"

text \<open>
  Applying a frame to the channel array: a snapshot overwrites it from index 0, a change
  with a channel beyond the array is ignored.
\<close>

definition applyFrame :: "RecordingFrame \<Rightarrow> byte list \<Rightarrow> js_error + byte list" where
  "applyFrame frame channels =
     (case (fr_isSnapshot frame, fr_snapshotData frame) of
        (True, Some snapshotData) \<Rightarrow> typedSet channels snapshotData
      | _ \<Rightarrow> Inr (foldl (\<lambda>ch (channel, v). ch[channel := v]) channels (fr_changes frame)))"

text \<open>
  \<open>buildFrameIndex\<close>: one pass over the frame data that records, for every snapshot frame,
  the offset of the frame and the position accumulated before the frame's own delta time
  is added.
\<close>

function buildIndexLoop ::
  "byte list \<Rightarrow> nat \<Rightarrow> int \<Rightarrow> FrameIndex list \<Rightarrow> js_error + FrameIndex list" where
  "buildIndexLoop data offset position index =
     (if offset < length data then
        (case byteAt data (offset + snd (decodeVarint data offset)) of
           None \<Rightarrow> Inr index
         | Some changeCount \<Rightarrow>
             if unat changeCount = FrameType_SNAPSHOT
             then buildIndexLoop data
                    (offset + snd (decodeVarint data offset) + 1 + TOTAL_CHANNELS)
                    (position + fst (decodeVarint data offset))
                    (index @ [\<lparr>fi_offset = offset, fi_position = position, fi_isSnapshot = True\<rparr>])
             else if unat changeCount = FrameType_EXTENDED
             then (case readUInt16LE data (offset + snd (decodeVarint data offset) + 1) of
                     Inl e \<Rightarrow> Inl e
                   | Inr actualChangeCount \<Rightarrow>
                       buildIndexLoop data
                         (offset + snd (decodeVarint data offset) + 3 + actualChangeCount * 3)
                         (position + fst (decodeVarint data offset)) index)
             else buildIndexLoop data
                    (offset + snd (decodeVarint data offset) + 1 + unat changeCount * 3)
                    (position + fst (decodeVarint data offset)) index)
      else Inr index)"
  by pat_completeness auto
termination
  by (relation "measure (\<lambda>(data, offset, position, index). length data - offset)") auto

declare buildIndexLoop.simps [simp del]

definition buildFrameIndex :: "DMXPlayer \<Rightarrow> js_error + DMXPlayer" where
  "buildFrameIndex p =
     (case pl_frameData p of
        None \<Rightarrow> Inr p
      | Some data \<Rightarrow>
          if pl_frameIndexBuilt p then Inr p
          else bindE (buildIndexLoop data 0 0 []) (\<lambda>index.
               Inr (p\<lparr>pl_frameIndex := index, pl_frameIndexBuilt := True\<rparr>)))"

text \<open>
  \<open>scheduleNextFrame\<close>. \<open>nextFrame\<close> is its end check followed by \<open>readNextFrame\<close>. With loop
  mode on, the method resets the player and calls itself; the second call runs from the
  same reset state every time, so if it finds no frame either the recursion never ends
  (\<open>StackOverflow\<close>).
\<close>

definition nextFrame ::
  "byte list \<Rightarrow> RecordingHeader \<Rightarrow> DMXPlayer \<Rightarrow> js_error + RecordingFrame option \<times> DMXPlayer" where
  "nextFrame data header p =
     (if pl_frameOffset p \<ge> length data \<or> pl_currentFrame p \<ge> hdr_frameCount header
      then Inr (None, p)
      else readNextFrame p)"

definition armTimer :: "RecordingFrame \<Rightarrow> DMXPlayer \<Rightarrow> DMXPlayer" where
  "armTimer frame p =
     p\<lparr>pl_currentPosition := pl_currentPosition p + fr_deltaTime frame, pl_pendingFrame := Some frame\<rparr>"

definition scheduleNextFrame :: "DMXPlayer \<Rightarrow> js_error + DMXPlayer \<times> player_event list" where
  "scheduleNextFrame p =
     (case (pl_frameData p, pl_header p) of
        (Some data, Some header) \<Rightarrow>
          if pl_state p \<noteq> PlayPlaying then Inr (p, [])
          else
            bindE (nextFrame data header p) (\<lambda>(frame, p1).
            case frame of
              Some f \<Rightarrow> Inr (armTimer f p1, [])
            | None \<Rightarrow>
                if pl_loopEnabled p1 then
                  bindE (nextFrame data header
                           (p1\<lparr>pl_frameOffset := 0, pl_currentFrame := 0, pl_currentPosition := 0,
                               pl_channels := replicate (length (pl_channels p1)) 0\<rparr>)) (\<lambda>(frame', p2).
                  case frame' of
                    Some f \<Rightarrow> Inr (armTimer f p2, [])
                  | None \<Rightarrow> Inl StackOverflow)
                else
                  (case setState PlayFinished p1 of (p2, changed) \<Rightarrow>
                     Inr (p2, changed @ [FinishedEvent])))
      | _ \<Rightarrow> Inr (p, []))"

text \<open>The timer callback: nothing happens when no timer is armed.\<close>

definition onTimer :: "DMXPlayer \<Rightarrow> js_error + DMXPlayer \<times> player_event list" where
  "onTimer p =
     (case pl_pendingFrame p of
        None \<Rightarrow> Inr (p, [])
      | Some frame \<Rightarrow>
          bindE (applyFrame frame (pl_channels p)) (\<lambda>channels.
          let p1 = p\<lparr>pl_channels := channels, pl_currentFrame := pl_currentFrame p + 1,
                      pl_pendingFrame := None\<rparr>;
              events = FrameEvent channels #
                (case pl_header p1 of None \<Rightarrow> []
                 | Some h \<Rightarrow> [PositionEvent (pl_currentPosition p1) (hdr_duration h)])
          in bindE (scheduleNextFrame p1) (\<lambda>(p2, events').
             Inr (p2, events @ events'))))"

definition play :: "DMXPlayer \<Rightarrow> js_error + DMXPlayer \<times> player_event list" where
  "play p =
     (if pl_frameData p = None \<or> pl_header p = None then Inl NoRecordingLoaded
      else if pl_state p = PlayPlaying then Inr (p, [])
      else
        let p1 = (if pl_state p = PlayPaused then p
                  else p\<lparr>pl_frameOffset := 0, pl_currentFrame := 0, pl_currentPosition := 0,
                         pl_channels := replicate (length (pl_channels p)) 0\<rparr>);
            (p2, changed) = setState PlayPlaying p1
        in bindE (scheduleNextFrame p2) (\<lambda>(p3, events). Inr (p3, changed @ events)))"

definition pause :: "DMXPlayer \<Rightarrow> DMXPlayer \<times> player_event list" where
  "pause p =
     (if pl_state p \<noteq> PlayPlaying then (p, [])
      else setState PlayPaused (p\<lparr>pl_pendingFrame := None, pl_pausedPosition := pl_currentPosition p\<rparr>))"

text \<open>The event loop firing the armed timer \<open>n\<close> times in a row.\<close>

fun fireTimers :: "nat \<Rightarrow> DMXPlayer \<Rightarrow> js_error + DMXPlayer \<times> player_event list" where
  "fireTimers 0 p = Inr (p, [])"
| "fireTimers (Suc n) p =
     bindE (onTimer p) (\<lambda>(p1, events).
     bindE (fireTimers n p1) (\<lambda>(p2, events'). Inr (p2, events @ events')))"

text \<open>\<open>seek\<close>: the scan for the last indexed snapshot at or before the target, then the replay
  loop. When the loop goes past the target it takes the frame's delta time off the position
  again; the frame offset and the frame counter stay behind the frame.\<close>

fun scanDown :: "FrameIndex list \<Rightarrow> int \<Rightarrow> nat \<Rightarrow> nat option" where
  "scanDown index targetPosition 0 = None"
| "scanDown index targetPosition (Suc i) =
     (if fi_position (index ! i) \<le> targetPosition then Some i
      else scanDown index targetPosition i)"

function replayLoop :: "int \<Rightarrow> byte list \<Rightarrow> DMXPlayer \<Rightarrow> js_error + DMXPlayer" where
  "replayLoop targetPosition data p =
     (if pl_currentPosition p < targetPosition \<and> pl_frameOffset p < length data then
        (case readFrameAt data (pl_frameOffset p) of
           Inl e \<Rightarrow> Inl e
         | Inr (None, off) \<Rightarrow> Inr (p\<lparr>pl_frameOffset := off\<rparr>)
         | Inr (Some frame, off) \<Rightarrow>
             if pl_currentPosition p + fr_deltaTime frame > targetPosition
             then Inr (p\<lparr>pl_frameOffset := off, pl_currentFrame := pl_currentFrame p + 1\<rparr>)
             else
               (case applyFrame frame (pl_channels p) of
                  Inl e \<Rightarrow> Inl e
                | Inr channels \<Rightarrow>
                    replayLoop targetPosition data
                      (p\<lparr>pl_frameOffset := off,
                         pl_currentPosition := pl_currentPosition p + fr_deltaTime frame,
                         pl_currentFrame := pl_currentFrame p + 1, pl_channels := channels\<rparr>)))
      else Inr p)"
  by pat_completeness auto
termination
proof -
  have mono: "readChanges data off n = Inr (r, off') \<Longrightarrow> off \<le> off'" for data off n r off'
  proof (induction n arbitrary: off r off')
    case 0
    then show ?case by simp
  next
    case (Suc n)
    then show ?case
      by (auto simp: bindE_def split: sum.splits prod.splits) fastforce+
  qed
  have adv: "readFrameAt data off = Inr (Some f, off') \<Longrightarrow> off < off'" for data off f off'
    by (auto simp: readFrameAt_def bindE_def TOTAL_CHANNELS_def
        split: if_splits prod.splits option.splits sum.splits dest!: mono)
  show ?thesis
    by (relation "measure (\<lambda>(targetPosition, data, p). length data - pl_frameOffset p)")
       (auto dest!: adv)
qed

declare replayLoop.simps [simp del]

definition seek :: "int \<Rightarrow> DMXPlayer \<Rightarrow> js_error + DMXPlayer \<times> player_event list" where
  "seek positionMs p =
     (case (pl_frameData p, pl_header p) of
        (Some data, Some header) \<Rightarrow>
          bindE (buildFrameIndex p) (\<lambda>p1.
          let wasPlaying = (pl_state p1 = PlayPlaying);
              p2 = (if wasPlaying then p1\<lparr>pl_pendingFrame := None\<rparr> else p1);
              targetPosition = max 0 (min positionMs (int (hdr_duration header)));
              snapshotIndex = scanDown (pl_frameIndex p2) targetPosition (length (pl_frameIndex p2));
              p3 = p2\<lparr>pl_channels := replicate (length (pl_channels p2)) 0\<rparr>
          in bindE (case snapshotIndex of
                      Some i \<Rightarrow>
                        bindE (readNextFrame
                                 (p3\<lparr>pl_frameOffset := fi_offset (pl_frameIndex p3 ! i),
                                     pl_currentPosition := fi_position (pl_frameIndex p3 ! i),
                                     pl_currentFrame := i\<rparr>)) (\<lambda>(frame, p4).
                        case frame of
                          None \<Rightarrow> Inr p4
                        | Some f \<Rightarrow>
                            (case (fr_isSnapshot f, fr_snapshotData f) of
                               (True, Some snapshotData) \<Rightarrow>
                                 bindE (typedSet (pl_channels p4) snapshotData) (\<lambda>channels.
                                 Inr (p4\<lparr>pl_channels := channels\<rparr>))
                             | _ \<Rightarrow> Inr p4))
                    | None \<Rightarrow>
                        Inr (p3\<lparr>pl_frameOffset := 0, pl_currentPosition := 0, pl_currentFrame := 0\<rparr>))
               (\<lambda>p5.
          bindE (replayLoop targetPosition data p5) (\<lambda>p6.
          let p7 = p6\<lparr>pl_pausedPosition := pl_currentPosition p6\<rparr>;
              events = [PositionEvent (pl_currentPosition p7) (hdr_duration header),
                        FrameEvent (pl_channels p7)]
          in if wasPlaying
             then (case setState PlayPlaying p7 of (p8, changed) \<Rightarrow>
                     bindE (scheduleNextFrame p8) (\<lambda>(p9, events').
                     Inr (p9, events @ changed @ events')))
             else Inr (p7, events))))
      | _ \<Rightarrow> Inr (p, []))"

definition seekForward :: "int \<Rightarrow> DMXPlayer \<Rightarrow> js_error + DMXPlayer \<times> player_event list" where
  "seekForward ms p = seek (pl_currentPosition p + ms) p"

definition seekBackward :: "int \<Rightarrow> DMXPlayer \<Rightarrow> js_error + DMXPlayer \<times> player_event list" where
  "seekBackward ms p = seek (pl_currentPosition p - ms) p"

text \<open>
  A frame as \<open>readNextFrame\<close> returns it, written back as bytes, and the frames for which
  reading inverts writing: the delta time fits a signed 32-bit number, a snapshot has 512
  bytes and no change list, a delta frame no snapshot data and 16-bit channel numbers.
\<close>

definition encodeFrame :: "RecordingFrame \<Rightarrow> byte list" where
  "encodeFrame f =
     (case fr_snapshotData f of
        Some snapshotData \<Rightarrow> snapshotFrameBytes (fr_deltaTime f) snapshotData
      | None \<Rightarrow> deltaFrameBytes (fr_deltaTime f) (fr_changes f))"

definition validFrame :: "RecordingFrame \<Rightarrow> bool" where
  "validFrame f \<longleftrightarrow>
     0 \<le> fr_deltaTime f \<and> fr_deltaTime f < 2 ^ 31 \<and>
     (case fr_snapshotData f of
        Some snapshotData \<Rightarrow>
          fr_isSnapshot f \<and> fr_changes f = [] \<and> length snapshotData = TOTAL_CHANNELS
      | None \<Rightarrow>
          \<not> fr_isSnapshot f \<and> length (fr_changes f) \<le> 65535 \<and>
          list_all (\<lambda>c. fst c \<le> 65535) (fr_changes f))"

definition framesBytes :: "RecordingFrame list \<Rightarrow> byte list" where
  "framesBytes fs = concat (map encodeFrame fs)"

text \<open>The channel arrays a player shows after each of a list of frames, applied in order.\<close>

fun playStates :: "RecordingFrame list \<Rightarrow> byte list \<Rightarrow> byte list list" where
  "playStates [] channels = []"
| "playStates (f # fs) channels =
     (case applyFrame f channels of
        Inl e \<Rightarrow> []
      | Inr channels' \<Rightarrow> channels' # playStates fs channels')"

text \<open>
  A player in the middle of uninterrupted playback of the frames \<open>fs\<close>, after \<open>k\<close> timers
  have fired: the channels show the \<open>k\<close>-th state, and either the timer for frame \<open>k\<close> is
  armed, or all frames are played and the player is finished.
\<close>

definition afterTimers :: "RecordingFrame list \<Rightarrow> RecordingHeader \<Rightarrow> nat \<Rightarrow> DMXPlayer \<Rightarrow> bool" where
  "afterTimers fs header k p \<longleftrightarrow>
     pl_frameData p = Some (framesBytes fs) \<and> pl_header p = Some header \<and>
     hdr_frameCount header = length fs \<and> \<not> pl_loopEnabled p \<and> k \<le> length fs \<and>
     pl_currentFrame p = k \<and> length (pl_channels p) = TOTAL_CHANNELS \<and>
     pl_channels p = last (replicate TOTAL_CHANNELS 0 # take k (playStates fs (replicate TOTAL_CHANNELS 0))) \<and>
     (if k < length fs
      then pl_state p = PlayPlaying \<and> pl_pendingFrame p = Some (fs ! k) \<and>
           pl_frameOffset p = length (framesBytes (take (Suc k) fs))
      else pl_state p = PlayFinished \<and> pl_pendingFrame p = None \<and>
           pl_frameOffset p = length (framesBytes fs))"

section \<open>The frames a recording keeps\<close>

text \<open>
  What \<open>recordFrame\<close> stores for a list of inputs (arrival time and channel array), given
  the time of the last stored frame, the time of the last snapshot, whether no frame has
  been stored yet, and the channel array of the preceding input: the first input and an
  input that arrives 5000 ms or more after the last snapshot are stored as snapshots, an
  input that differs from its predecessor as a delta frame, and an input that is identical
  to its predecessor is not stored. \<open>storedFrames\<close> gives the frames as a reader gets them
  back, \<open>keptInputs\<close> the inputs that are stored.
\<close>

fun storedFrames ::
  "int \<Rightarrow> int \<Rightarrow> bool \<Rightarrow> byte list \<Rightarrow> (int \<times> byte list) list \<Rightarrow> RecordingFrame list" where
  "storedFrames lastFrameTime lastSnapshotTime first previous [] = []"
| "storedFrames lastFrameTime lastSnapshotTime first previous ((now, channels) # rest) =
     (if first \<or> now - lastSnapshotTime \<ge> SNAPSHOT_INTERVAL
      then \<lparr>fr_deltaTime = (if first then 0 else now - lastFrameTime), fr_changes = [],
            fr_isSnapshot = True, fr_snapshotData = Some channels\<rparr>
           # storedFrames now now False channels rest
      else if channels \<noteq> previous
      then \<lparr>fr_deltaTime = now - lastFrameTime, fr_changes = computeChanges channels previous,
            fr_isSnapshot = False, fr_snapshotData = None\<rparr>
           # storedFrames now lastSnapshotTime False channels rest
      else storedFrames lastFrameTime lastSnapshotTime False previous rest)"

fun keptInputs ::
  "int \<Rightarrow> bool \<Rightarrow> byte list \<Rightarrow> (int \<times> byte list) list \<Rightarrow> (int \<times> byte list) list" where
  "keptInputs lastSnapshotTime first previous [] = []"
| "keptInputs lastSnapshotTime first previous ((now, channels) # rest) =
     (if first \<or> now - lastSnapshotTime \<ge> SNAPSHOT_INTERVAL
      then (now, channels) # keptInputs now False channels rest
      else if channels \<noteq> previous
      then (now, channels) # keptInputs lastSnapshotTime False channels rest
      else keptInputs lastSnapshotTime False previous rest)"

section \<open>Example inputs\<close>

definition freshHandler :: ArtNetHandler where
  "freshHandler = \<lparr>discoveredUniverses = Map.empty, discoveredNodes = Map.empty, socketOpen = True\<rparr>"

text \<open>Two DMX datagrams for universe 1: three channels (7, 8, 9), then two channels (5, 6).\<close>

definition exampleDatagramA :: "byte list" where
  "exampleDatagramA = ARTNET_HEADER @ [0x00, 0x50, 0, 14, 0, 0, 1, 0, 0, 3, 7, 8, 9]"

definition exampleDatagramB :: "byte list" where
  "exampleDatagramB = ARTNET_HEADER @ [0x00, 0x50, 0, 14, 1, 0, 1, 0, 0, 2, 5, 6]"

definition exampleTransmitter :: "int \<Rightarrow> ArtNetTransmitter" where
  "exampleTransmitter u = \<lparr>tx_universe = u, tx_sequence = 0, tx_running = True\<rparr>"

text \<open>An sACN packet of a named source, with no CID and no address, so that its key is its name.\<close>

definition examplePacket :: "string \<Rightarrow> int \<Rightarrow> nat \<Rightarrow> SACNPacket" where
  "examplePacket name u p = \<lparr>sp_universe = u, sp_payload = Map.empty, sp_sourceName = Some name,
     sp_sourceAddress = None, sp_priority = Some p, sp_sequence = None, sp_cid = None\<rparr>"

definition handlerWithA :: SACNHandler where
  "handlerWithA = fst (handlePacket (examplePacket ''A'' 1 100) 0 initialSACNHandler)"

text \<open>
  A first recording of one frame, stopped, and the start of a second recording by the
  same recorder.
\<close>

definition secondRecordingStart :: "js_error + DMXRecorder" where
  "secondRecordingStart =
     bindE (startRecording Sacn 1 1000 newRecorder) (\<lambda>r1.
     bindE (recordFrame 1010 (replicate 512 7) r1) (\<lambda>r2.
     bindE (stopRecording 2000 r2) (\<lambda>(r3, duration).
     startRecording Sacn 1 3000 r3)))"

text \<open>
  Inputs of a recording started at time 1000: the second frame repeats the first 10 ms
  later; and a frame repeated 5000 ms later.
\<close>

definition roundTripInputs :: "(int \<times> byte list) list" where
  "roundTripInputs = [(1000, replicate 512 7), (1010, replicate 512 7), (1020, replicate 512 8)]"

definition stillSnapshotInputs :: "(int \<times> byte list) list" where
  "stillSnapshotInputs = [(1000, replicate 512 7), (6000, replicate 512 7)]"

section \<open>Art-Net: helper lemmas\<close>

lemma validateHeader_iff: "validateHeader msg \<longleftrightarrow> take 8 msg = ARTNET_HEADER"
proof
  assume v: "validateHeader msg"
  have "byteAt msg 7 = byteAt ARTNET_HEADER 7"
    using v unfolding validateHeader_def list_all_iff by (simp add: ARTNET_HEADER_LENGTH_def)
  then have len: "8 \<le> length msg"
    by (auto simp: ARTNET_HEADER_def byteAt_def split: if_splits)
  show "take 8 msg = ARTNET_HEADER"
  proof (rule nth_equalityI)
    show "length (take 8 msg) = length ARTNET_HEADER" using len by (simp add: ARTNET_HEADER_def)
  next
    fix i assume "i < length (take 8 msg)"
    then have i: "i < 8" by simp
    then have "i \<in> set [0..<ARTNET_HEADER_LENGTH]" by (simp add: ARTNET_HEADER_LENGTH_def)
    with v have "byteAt msg i = byteAt ARTNET_HEADER i"
      unfolding validateHeader_def list_all_iff by blast
    with i len show "take 8 msg ! i = ARTNET_HEADER ! i"
      by (simp add: byteAt_def ARTNET_HEADER_def split: if_splits)
  qed
next
  assume t: "take 8 msg = ARTNET_HEADER"
  then have "length (take 8 msg) = 8" by (simp add: ARTNET_HEADER_def)
  then have len: "8 \<le> length msg" by simp
  show "validateHeader msg"
    unfolding validateHeader_def list_all_iff
  proof
    fix i assume "i \<in> set [0..<ARTNET_HEADER_LENGTH]"
    then have i: "i < 8" by (simp add: ARTNET_HEADER_LENGTH_def)
    have "msg ! i = take 8 msg ! i" using i by simp
    with t i len show "byteAt msg i = byteAt ARTNET_HEADER i"
      by (simp add: byteAt_def ARTNET_HEADER_def)
  qed
qed

lemma extract_loop:
  "n \<le> TOTAL_CHANNELS \<Longrightarrow> 18 + n \<le> length msg \<Longrightarrow>
   foldl (\<lambda>channels i. case byteAt msg (18 + i) of None \<Rightarrow> channels | Some v \<Rightarrow> channels[i := v])
       (replicate TOTAL_CHANNELS 0) [0..<n]
   = take n (drop 18 msg) @ replicate (TOTAL_CHANNELS - n) 0"
proof (induction n)
  case 0
  then show ?case by simp
next
  case (Suc n)
  have r: "replicate (TOTAL_CHANNELS - n) (0::byte) = 0 # replicate (TOTAL_CHANNELS - Suc n) 0"
    using Suc.prems by (cases "TOTAL_CHANNELS - n") (auto simp: Suc_diff_Suc)
  have t: "take (Suc n) (drop 18 msg) = take n (drop 18 msg) @ [msg ! (18 + n)]"
    using Suc.prems by (simp add: take_Suc_conv_app_nth)
  have l: "length (take n (drop 18 msg)) = n" using Suc.prems by simp
  show ?case
    using Suc l by (simp add: byteAt_def r t list_update_append)
qed

lemma extractChannels_eq:
  "dataLength \<le> TOTAL_CHANNELS \<Longrightarrow> 18 + dataLength \<le> length msg \<Longrightarrow>
   extractChannels msg dataLength = take dataLength (drop 18 msg) @ replicate (TOTAL_CHANNELS - dataLength) 0"
  unfolding extractChannels_def by (simp add: extract_loop min_absorb1)

lemma parseDMXPacket_never_raises:
  "18 \<le> length msg \<Longrightarrow> \<exists>h' evs. parseDMXPacket msg rinfo now h = Inr (h', evs)"
  by (auto simp: parseDMXPacket_def bindE_def readUInt16BE_def readUInt16LE_def Let_def
      split: option.splits)

lemma handleMessage_never_raises: "\<exists>h' evs. handleMessage msg rinfo now h = Inr (h', evs)"
  using parseDMXPacket_never_raises[of msg rinfo now h]
  by (auto simp: handleMessage_def bindE_def readUInt16LE_def parseArtPollReply_def Let_def
      ARTNET_MIN_PACKET_LENGTH_def)


lemma artPollPacket_bytes:
  "artPollPacket = Inr [0x41, 0x72, 0x74, 0x2D, 0x4E, 0x65, 0x74, 0x00, 0, 0x20, 0, 14, 0, 0]"
  by code_simp

lemma writeBytes_append:
  "off + length bs \<le> length buf \<Longrightarrow>
   writeBytes buf bs off = take off buf @ bs @ drop (off + length bs) buf"
proof (induction bs arbitrary: buf off)
  case Nil
  then show ?case by simp
next
  case (Cons b bs)
  have "take (Suc off) (buf[off := b]) = take off buf @ [b]"
    using Cons.prems by (simp add: take_Suc_conv_app_nth)
  then show ?case using Cons by simp
qed

lemma artnetSend_bytes:
  assumes "tx_running t" and "0 \<le> tx_universe t" and "tx_universe t \<le> 65535" and "length D \<le> 512"
  shows "artnetSend D t = Inr (t\<lparr>tx_sequence := tx_sequence t + 1\<rparr>,
           Some (ARTNET_HEADER @ [0x00, 0x50, 0, 14, tx_sequence t, 0,
                   word_of_int (tx_universe t mod 256), word_of_int (tx_universe t div 256),
                   word_of_int (int (length D) div 256), word_of_int (int (length D) mod 256)] @ D))"
proof -
  have u: "uint (tx_sequence t) \<le> 255" using uint_lt2p[of "tx_sequence t"] by simp
  have r: "replicate (18 + length D) (0::byte) = replicate 18 0 @ replicate (length D) 0"
    by (simp add: replicate_add)
  have r18: "replicate 18 (0::byte) = [0,0,0,0,0,0,0,0,0,0,0,0,0,0,0,0,0,0]"
    by (simp add: numeral_eq_Suc)
  show ?thesis
    using assms u
    by (simp add: artnetSend_def TOTAL_CHANNELS_def min_absorb1 Let_def bindE_def
        writeUInt16LE_def writeUInt16BE_def writeUInt8_def ARTNET_OPCODE_DMX_def
        ARTNET_HEADER_def writeBytes_append r r18 list_update_append)
qed


lemma unat_byte_of_int: "0 \<le> x \<Longrightarrow> x < 256 \<Longrightarrow> unat (word_of_int x :: byte) = nat x"
  by (simp add: unat_eq_nat_uint uint_word_of_int)

lemma nat_split256: "0 \<le> U \<Longrightarrow> nat (U mod 256) + 256 * nat (U div 256) = nat U"
proof -
  assume U: "0 \<le> U"
  have d: "0 \<le> U div 256" using U by (simp add: pos_imp_zdiv_nonneg_iff)
  have "nat U = nat (U mod 256 + 256 * (U div 256))" by simp
  also have "\<dots> = nat (U mod 256) + nat (256 * (U div 256))"
    using d by (intro nat_add_distrib) simp_all
  also have "nat (256 * (U div 256)) = 256 * nat (U div 256)"
    by (simp add: nat_mult_distrib)
  finally show ?thesis by simp
qed

lemma handleMessage_dmx:
  assumes "18 + L \<le> length msg" and "take 8 msg = ARTNET_HEADER"
    and "readUInt16LE msg 8 = Inr ARTNET_OPCODE_DMX"
    and "readUInt16BE msg 10 = Inr v" and "14 \<le> v"
    and "readUInt16LE msg 14 = Inr U" and "U \<le> 63999"
    and "readUInt16BE msg 16 = Inr L" and "2 \<le> L" and "L \<le> 512"
  shows "\<exists>h' evs p. handleMessage msg rinfo now h = Inr (h', evs @ [EmitPacket p]) \<and>
           emittedPackets evs = [] \<and> pkt_universe p = U \<and>
           pkt_channels p = take L (drop 18 msg) @ replicate (512 - L) 0"
proof -
  have ex: "extractChannels msg L = take L (drop 18 msg) @ replicate (512 - L) 0"
    using assms extractChannels_eq[of L msg] by (simp add: TOTAL_CHANNELS_def)
  show ?thesis
    using assms ex
    by (cases "discoveredUniverses h U")
       (simp_all add: handleMessage_def ARTNET_MIN_PACKET_LENGTH_def validateHeader_iff bindE_def
        parseDMXPacket_def Let_def isValidUniverse_def ARTNET_OPCODE_DMX_def
        ARTNET_OPCODE_POLL_REPLY_def)
qed


section \<open>Art-Net: claims\<close>

text \<open>
  C8. A byte sequence whose first eight bytes are not \<open>"Art-Net\0"\<close>, or that is shorter than
  18 bytes, or that carries an unsupported protocol version or a data length beyond the
  datagram's end, makes \<open>handleMessage\<close> return normally without emitting a DMX packet; with
  a bad header or a short length the handler is left as it was. No byte sequence makes
  \<open>handleMessage\<close> raise.
\<close>

theorem handleMessage_drops_malformed:
  assumes "take 8 msg \<noteq> ARTNET_HEADER \<or> length msg < 18 \<or>
           (\<exists>v<14. readUInt16BE msg 10 = Inr v) \<or>
           (\<exists>L. readUInt16BE msg 16 = Inr L \<and> length msg < 18 + L)"
  shows "(\<forall>m. \<exists>h' evs. handleMessage m rinfo now h = Inr (h', evs)) \<and>
         (\<exists>h' evs. handleMessage msg rinfo now h = Inr (h', evs) \<and> emittedPackets evs = [] \<and>
            (take 8 msg \<noteq> ARTNET_HEADER \<or> length msg < 18 \<longrightarrow>
               h' = h \<and>
               evs = [LogNote (if length msg < 18 then PacketTooShort (length msg) else InvalidHeader)]))"
proof (intro conjI allI)
  fix m show "\<exists>h' evs. handleMessage m rinfo now h = Inr (h', evs)"
    by (rule handleMessage_never_raises)
next
  show "\<exists>h' evs. handleMessage msg rinfo now h = Inr (h', evs) \<and> emittedPackets evs = [] \<and>
            (take 8 msg \<noteq> ARTNET_HEADER \<or> length msg < 18 \<longrightarrow>
               h' = h \<and>
               evs = [LogNote (if length msg < 18 then PacketTooShort (length msg) else InvalidHeader)])"
    using assms
    by (auto simp: handleMessage_def ARTNET_MIN_PACKET_LENGTH_def validateHeader_iff bindE_def
        parseDMXPacket_def parseArtPollReply_def Let_def readUInt16LE_def readUInt16BE_def
        split: if_splits option.splits)
qed

theorem handleMessage_drops_malformed_witness:
  "\<exists>h' evs. handleMessage [0x41, 0x72, 0x74] ''10.0.0.7'' 0 freshHandler = Inr (h', evs) \<and>
      emittedPackets evs = [] \<and> h' = freshHandler \<and> evs = [LogNote (PacketTooShort 3)]"
  using handleMessage_drops_malformed [of "[0x41, 0x72, 0x74]" "''10.0.0.7''" 0 freshHandler]
  by (simp add: ARTNET_HEADER_def)

text \<open>
  C1 (as the code has it). For a valid Art-Net DMX datagram with data length \<open>L\<close>
  (\<open>2 \<le> L \<le> 512\<close>) and universe \<open>U \<le> 63999\<close>, \<open>handleMessage\<close> emits exactly one DMX packet:
  its universe is \<open>U\<close>, it has 512 channels, the first \<open>L\<close> are the payload bytes at offset
  18, and the channels \<open>L..511\<close> are zero, whatever earlier datagrams carried.
\<close>

theorem parseDMXPacket_zero_fills:
  assumes "18 + L \<le> length msg" and "take 8 msg = ARTNET_HEADER"
    and "readUInt16LE msg 8 = Inr ARTNET_OPCODE_DMX"
    and "readUInt16BE msg 10 = Inr v" and "14 \<le> v"
    and "readUInt16LE msg 14 = Inr U" and "U \<le> 63999"
    and "readUInt16BE msg 16 = Inr L" and "2 \<le> L" and "L \<le> 512"
  shows "\<exists>h' evs p. handleMessage msg rinfo now h = Inr (h', evs @ [EmitPacket p]) \<and>
           emittedPackets evs = [] \<and> pkt_universe p = U \<and> length (pkt_channels p) = 512 \<and>
           take L (pkt_channels p) = take L (drop 18 msg) \<and>
           (\<forall>i. L \<le> i \<and> i < 512 \<longrightarrow> pkt_channels p ! i = 0)"
proof -
  from handleMessage_dmx[OF assms, of rinfo now h]
  obtain h' evs p where r: "handleMessage msg rinfo now h = Inr (h', evs @ [EmitPacket p])"
      "emittedPackets evs = []" "pkt_universe p = U"
      "pkt_channels p = take L (drop 18 msg) @ replicate (512 - L) 0"
    by blast
  have len: "length (take L (drop 18 msg)) = L" using assms by simp
  have "length (pkt_channels p) = 512" using len assms by (simp add: r)
  moreover have "take L (pkt_channels p) = take L (drop 18 msg)" using len by (simp add: r)
  moreover have "\<forall>i. L \<le> i \<and> i < 512 \<longrightarrow> pkt_channels p ! i = 0"
    using len by (auto simp: r nth_append)
  ultimately show ?thesis using r by blast
qed

theorem parseDMXPacket_zero_fills_witness:
  "\<exists>h' evs p. handleMessage exampleDatagramB ''10.0.0.7'' 25 freshHandler
                 = Inr (h', evs @ [EmitPacket p]) \<and>
           emittedPackets evs = [] \<and> pkt_universe p = 1 \<and> length (pkt_channels p) = 512 \<and>
           take 2 (pkt_channels p) = [5, 6] \<and>
           (\<forall>i. 2 \<le> i \<and> i < 512 \<longrightarrow> pkt_channels p ! i = 0)"
  using parseDMXPacket_zero_fills [of 2 exampleDatagramB 14 1 "''10.0.0.7''" 25 freshHandler]
  by (simp add: exampleDatagramB_def ARTNET_HEADER_def readUInt16LE_def readUInt16BE_def
      ARTNET_OPCODE_DMX_def)

text \<open>
  C1 as stated fails: after a datagram that set channel index 2 to 9, a datagram with data
  length 2 yields a packet whose channel index 2 is 0, not 9.
\<close>

theorem parseDMXPacket_prior_state_counterexample:
  "map (\<lambda>p. pkt_channels p ! 2)
     (receivedPackets (snd (receiveAll [(exampleDatagramA, ''10.0.0.7'', 0),
                                        (exampleDatagramB, ''10.0.0.7'', 25)] freshHandler)))
   = [9, 0]"
  by (simp add: exampleDatagramA_def exampleDatagramB_def freshHandler_def onMessage_def handleMessage_def
     ARTNET_MIN_PACKET_LENGTH_def validateHeader_iff ARTNET_HEADER_def bindE_def parseDMXPacket_def
     readUInt16LE_def readUInt16BE_def ARTNET_OPCODE_DMX_def isValidUniverse_def Let_def
     extractChannels_eq TOTAL_CHANNELS_def byteAt_def)

text \<open>
  C5 (as the code has it). The ArtPoll datagram of \<open>sendArtPoll\<close> has 14 bytes, a valid
  header and the little-endian opcode \<open>0x2000\<close> at offset 8, and \<open>handleMessage\<close> drops it as
  too short (fewer than 18 bytes) before it reads the opcode. For a running transmitter
  with a valid universe \<open>U\<close> (\<open>0 \<le> U \<le> 63999\<close>) and data \<open>D\<close> with \<open>2 \<le> |D| \<le> 512\<close>, the datagram
  built by \<open>send\<close> is decoded by \<open>handleMessage\<close> into one DMX packet with universe \<open>U\<close> whose
  first \<open>|D|\<close> channels are \<open>D\<close> (the others are zero).
\<close>

theorem artnet_wire_roundtrip:
  "(\<exists>p. artPollPacket = Inr p \<and> length p = 14 \<and> validateHeader p \<and>
        readUInt16LE p 8 = Inr ARTNET_OPCODE_POLL \<and>
        handleMessage p rinfo now h = Inr (h, [LogNote (PacketTooShort 14)])) \<and>
   (tx_running t \<and> isValidUniverse (tx_universe t) \<and> 2 \<le> length D \<and> length D \<le> 512 \<longrightarrow>
      (\<exists>t' p h' evs pkt. artnetSend D t = Inr (t', Some p) \<and>
          handleMessage p rinfo now h = Inr (h', evs @ [EmitPacket pkt]) \<and>
          emittedPackets evs = [] \<and> int (pkt_universe pkt) = tx_universe t \<and>
          take (length D) (pkt_channels pkt) = D \<and>
          pkt_channels pkt = D @ replicate (512 - length D) 0))"
proof (intro conjI impI)
  show "\<exists>p. artPollPacket = Inr p \<and> length p = 14 \<and> validateHeader p \<and>
        readUInt16LE p 8 = Inr ARTNET_OPCODE_POLL \<and>
        handleMessage p rinfo now h = Inr (h, [LogNote (PacketTooShort 14)])"
    by (simp add: artPollPacket_bytes validateHeader_iff ARTNET_HEADER_def readUInt16LE_def
        ARTNET_OPCODE_POLL_def handleMessage_def ARTNET_MIN_PACKET_LENGTH_def)
next
  assume a: "tx_running t \<and> isValidUniverse (tx_universe t) \<and> 2 \<le> length D \<and> length D \<le> 512"
  define U where "U = tx_universe t"
  define msg where "msg = ARTNET_HEADER @ [0x00, 0x50, 0, 14, tx_sequence t, 0,
                   word_of_int (U mod 256), word_of_int (U div 256),
                   word_of_int (int (length D) div 256), word_of_int (int (length D) mod 256)] @ D"
  have U: "0 \<le> U" "U \<le> 63999" using a by (simp_all add: U_def isValidUniverse_def)
  have send: "artnetSend D t = Inr (t\<lparr>tx_sequence := tx_sequence t + 1\<rparr>, Some msg)"
    using a U artnetSend_bytes[of t D] by (simp add: msg_def U_def)
  have ulo: "unat (word_of_int (U mod 256) :: byte) = nat (U mod 256)"
    by (rule unat_byte_of_int) simp_all
  have uhi: "unat (word_of_int (U div 256) :: byte) = nat (U div 256)"
    using U by (intro unat_byte_of_int) auto
  have llo: "unat (word_of_int (int (length D) mod 256) :: byte) = nat (int (length D) mod 256)"
    by (rule unat_byte_of_int) simp_all
  have lhi: "unat (word_of_int (int (length D) div 256) :: byte) = nat (int (length D) div 256)"
    using a by (intro unat_byte_of_int) auto
  have 1: "18 + length D \<le> length msg" by (simp add: msg_def ARTNET_HEADER_def)
  have 2: "take 8 msg = ARTNET_HEADER" by (simp add: msg_def ARTNET_HEADER_def)
  have 3: "readUInt16LE msg 8 = Inr ARTNET_OPCODE_DMX"
    by (simp add: msg_def ARTNET_HEADER_def readUInt16LE_def ARTNET_OPCODE_DMX_def)
  have 4: "readUInt16BE msg 10 = Inr 14"
    by (simp add: msg_def ARTNET_HEADER_def readUInt16BE_def)
  have 5: "readUInt16LE msg 14 = Inr (nat U)"
    using U by (simp add: msg_def ARTNET_HEADER_def readUInt16LE_def ulo uhi nat_split256)
  have 6: "readUInt16BE msg 16 = Inr (length D)"
    by (simp add: msg_def ARTNET_HEADER_def readUInt16BE_def llo lhi)
       (metis nat_int mult_div_mod_eq of_nat_numeral zdiv_int zmod_int of_nat_mult of_nat_add)
  have 7: "drop 18 msg = D" by (simp add: msg_def ARTNET_HEADER_def)
  have "nat U \<le> 63999" using U by simp
  from handleMessage_dmx[OF 1 2 3 4 _ 5 this 6, of rinfo now h] a
  obtain h' evs pkt where r: "handleMessage msg rinfo now h = Inr (h', evs @ [EmitPacket pkt])"
      "emittedPackets evs = []" "pkt_universe pkt = nat U"
      "pkt_channels pkt = take (length D) (drop 18 msg) @ replicate (512 - length D) 0"
    by auto
  show "\<exists>t' p h' evs pkt. artnetSend D t = Inr (t', Some p) \<and>
          handleMessage p rinfo now h = Inr (h', evs @ [EmitPacket pkt]) \<and>
          emittedPackets evs = [] \<and> int (pkt_universe pkt) = tx_universe t \<and>
          take (length D) (pkt_channels pkt) = D \<and>
          pkt_channels pkt = D @ replicate (512 - length D) 0"
    using send r U by (auto simp: 7 U_def)
qed

theorem artnet_wire_roundtrip_witness:
  "\<exists>t' p h' evs pkt. artnetSend [5, 6] (exampleTransmitter 1) = Inr (t', Some p) \<and>
      handleMessage p ''10.0.0.7'' 0 freshHandler = Inr (h', evs @ [EmitPacket pkt]) \<and>
      emittedPackets evs = [] \<and> int (pkt_universe pkt) = 1 \<and>
      pkt_channels pkt = [5, 6] @ replicate 510 0"
  using artnet_wire_roundtrip [of "''10.0.0.7''" 0 freshHandler "exampleTransmitter 1" "[5, 6]"]
  by (simp add: exampleTransmitter_def isValidUniverse_def) blast

text \<open>
  C5 as stated fails: the ArtPoll datagram is not dispatched on its opcode
  (\<open>UnhandledPacket 0x2000\<close> would be the note of the dispatch); it is dropped as too short.
  And a DMX datagram encoded for universe 64000 is dropped by the decoder.
\<close>

theorem artnet_wire_roundtrip_counterexample:
  "bindE artPollPacket (\<lambda>p. handleMessage p ''10.0.0.7'' 0 freshHandler)
     = Inr (freshHandler, [LogNote (PacketTooShort 14)]) \<and>
   bindE artPollPacket (\<lambda>p. handleMessage p ''10.0.0.7'' 0 freshHandler)
     \<noteq> Inr (freshHandler, [LogNote (UnhandledPacket ARTNET_OPCODE_POLL)]) \<and>
   bindE (artnetSend [5, 6] (exampleTransmitter 64000))
         (\<lambda>r. case snd r of None \<Rightarrow> Inr (freshHandler, [])
                           | Some p \<Rightarrow> handleMessage p ''10.0.0.7'' 0 freshHandler)
     = Inr (freshHandler, [LogNote (InvalidUniverseNote 64000)])"
  by (simp add: artPollPacket_bytes artnetSend_bytes exampleTransmitter_def bindE_def
      handleMessage_def ARTNET_MIN_PACKET_LENGTH_def validateHeader_iff ARTNET_HEADER_def
      readUInt16LE_def readUInt16BE_def ARTNET_OPCODE_DMX_def parseDMXPacket_def
      isValidUniverse_def)

section \<open>sACN: helper lemmas and claims\<close>

lemma map_fst_mapSet_old: "k \<in> fst ` set xs \<Longrightarrow> map fst (mapSet k v xs) = map fst xs"
  by (induction xs) (auto simp: rev_image_eqI)

lemma map_fst_mapSet_new: "k \<notin> fst ` set xs \<Longrightarrow> map fst (mapSet k v xs) = map fst xs @ [k]"
  by (induction xs) auto

lemma distinct_mapSet: "distinct (map fst xs) \<Longrightarrow> distinct (map fst (mapSet k v xs))"
  by (cases "k \<in> fst ` set xs") (simp_all add: map_fst_mapSet_old map_fst_mapSet_new)

lemma mapSet_ne: "mapSet k v xs \<noteq> []"
  by (cases xs) (auto split: if_splits)

lemma mapSet_skip:
  "k \<notin> fst ` set pre \<Longrightarrow> k \<noteq> a \<Longrightarrow>
   mapSet k v (pre @ (a, i) # post) = pre @ (a, i) # mapSet k v post"
  by (induction pre) auto

lemma set_mapSet: "set (mapSet k v xs) \<subseteq> insert (k, v) (set xs)"
  by (induction xs) (auto split: if_splits)

lemma findHighest_append:
  "findHighest (xs @ ys) hp hs = (case findHighest xs hp hs of (hp', hs') \<Rightarrow> findHighest ys hp' hs')"
  by (induction xs arbitrary: hp hs) auto

lemma findHighest_below:
  "\<forall>x \<in> set xs. int (src_priority (snd x)) \<le> hp \<Longrightarrow> findHighest xs hp hs = (hp, hs)"
  by (induction xs arbitrary: hp hs) auto

lemma findHighest_bound:
  "\<forall>x \<in> set xs. int (src_priority (snd x)) < p \<Longrightarrow> hp < p \<Longrightarrow> fst (findHighest xs hp hs) < p"
  by (induction xs arbitrary: hp hs) auto

lemma findHighest_first_max:
  assumes "\<forall>x \<in> set pre. src_priority (snd x) < src_priority i"
    and "\<forall>x \<in> set post. src_priority (snd x) \<le> src_priority i"
  shows "findHighest (pre @ (k, i) # post) (- 1) None = (int (src_priority i), Some k)"
proof -
  obtain hp' hs' where f: "findHighest pre (- 1) None = (hp', hs')" by (cases "findHighest pre (- 1) None")
  have "fst (findHighest pre (- 1) None) < int (src_priority i)"
    using assms(1) by (intro findHighest_bound) auto
  then have lt: "hp' < int (src_priority i)" by (simp add: f)
  have "findHighest post (int (src_priority i)) (Some k) = (int (src_priority i), Some k)"
    using assms(2) by (intro findHighest_below) auto
  then show ?thesis using lt by (simp add: findHighest_append f)
qed

lemma findHighest_decomp:
  "(\<forall>x \<in> set xs. int (src_priority (snd x)) \<le> hp) \<and> findHighest xs hp hs = (hp, hs) \<or>
   (\<exists>pre k i post. xs = pre @ (k, i) # post \<and> findHighest xs hp hs = (int (src_priority i), Some k) \<and>
      hp < int (src_priority i) \<and>
      (\<forall>x \<in> set pre. src_priority (snd x) < src_priority i) \<and>
      (\<forall>x \<in> set post. src_priority (snd x) \<le> src_priority i))"
proof (induction xs arbitrary: hp hs)
  case Nil
  then show ?case by simp
next
  case (Cons a xs)
  obtain name info where a: "a = (name, info)" by (cases a)
  show ?case
  proof (cases "int (src_priority info) > hp")
    case True
    from Cons.IH[of "int (src_priority info)" "Some name"] show ?thesis
    proof
      assume "(\<forall>x\<in>set xs. int (src_priority (snd x)) \<le> int (src_priority info)) \<and>
              findHighest xs (int (src_priority info)) (Some name) = (int (src_priority info), Some name)"
      then have "a # xs = [] @ (name, info) # xs \<and>
          findHighest (a # xs) hp hs = (int (src_priority info), Some name) \<and>
          hp < int (src_priority info) \<and>
          (\<forall>x \<in> set []. src_priority (snd x) < src_priority info) \<and>
          (\<forall>x \<in> set xs. src_priority (snd x) \<le> src_priority info)"
        using True a by auto
      then show ?thesis by blast
    next
      assume "\<exists>pre k i post. xs = pre @ (k, i) # post \<and>
          findHighest xs (int (src_priority info)) (Some name) = (int (src_priority i), Some k) \<and>
          int (src_priority info) < int (src_priority i) \<and>
          (\<forall>x \<in> set pre. src_priority (snd x) < src_priority i) \<and>
          (\<forall>x \<in> set post. src_priority (snd x) \<le> src_priority i)"
      then obtain pre k i post where d: "xs = pre @ (k, i) # post"
          "findHighest xs (int (src_priority info)) (Some name) = (int (src_priority i), Some k)"
          "int (src_priority info) < int (src_priority i)"
          "\<forall>x \<in> set pre. src_priority (snd x) < src_priority i"
          "\<forall>x \<in> set post. src_priority (snd x) \<le> src_priority i"
        by blast
      have "a # xs = (a # pre) @ (k, i) # post \<and>
          findHighest (a # xs) hp hs = (int (src_priority i), Some k) \<and>
          hp < int (src_priority i) \<and>
          (\<forall>x \<in> set (a # pre). src_priority (snd x) < src_priority i) \<and>
          (\<forall>x \<in> set post. src_priority (snd x) \<le> src_priority i)"
        using True a d by auto
      then show ?thesis by blast
    qed
  next
    case False
    from Cons.IH[of hp hs] show ?thesis
    proof
      assume "(\<forall>x\<in>set xs. int (src_priority (snd x)) \<le> hp) \<and> findHighest xs hp hs = (hp, hs)"
      then show ?thesis using False a by auto
    next
      assume "\<exists>pre k i post. xs = pre @ (k, i) # post \<and>
          findHighest xs hp hs = (int (src_priority i), Some k) \<and>
          hp < int (src_priority i) \<and>
          (\<forall>x \<in> set pre. src_priority (snd x) < src_priority i) \<and>
          (\<forall>x \<in> set post. src_priority (snd x) \<le> src_priority i)"
      then obtain pre k i post where d: "xs = pre @ (k, i) # post"
          "findHighest xs hp hs = (int (src_priority i), Some k)"
          "hp < int (src_priority i)"
          "\<forall>x \<in> set pre. src_priority (snd x) < src_priority i"
          "\<forall>x \<in> set post. src_priority (snd x) \<le> src_priority i"
        by blast
      have "a # xs = (a # pre) @ (k, i) # post \<and>
          findHighest (a # xs) hp hs = (int (src_priority i), Some k) \<and>
          hp < int (src_priority i) \<and>
          (\<forall>x \<in> set (a # pre). src_priority (snd x) < src_priority i) \<and>
          (\<forall>x \<in> set post. src_priority (snd x) \<le> src_priority i)"
        using False a d by auto
      then show ?thesis by blast
    qed
  qed
qed

lemma findHighest_nonempty:
  assumes "xs \<noteq> []"
  shows "\<exists>pre k i post. xs = pre @ (k, i) # post \<and>
      findHighest xs (- 1) None = (int (src_priority i), Some k) \<and>
      (\<forall>x \<in> set pre. src_priority (snd x) < src_priority i) \<and>
      (\<forall>x \<in> set post. src_priority (snd x) \<le> src_priority i)"
proof -
  from assms obtain a where "a \<in> set xs" by (cases xs) auto
  moreover have "\<not> int (src_priority (snd a)) \<le> - 1" by simp
  ultimately have "\<not> (\<forall>x \<in> set xs. int (src_priority (snd x)) \<le> - 1)" by blast
  with findHighest_decomp[of xs "- 1" None] show ?thesis by blast
qed


lemma markActive_fst: "map fst (markActive hs xs) = map fst xs"
  by (induction xs) (auto simp: markActive_def)

lemma length_markActive: "length (markActive hs xs) = length xs"
  by (simp add: markActive_def)

lemma markActive_decomp:
  "markActive hs (pre @ (k, i) # post)
     = markActive hs pre @ (k, i\<lparr>src_isActive := (Some k = hs)\<rparr>) # markActive hs post"
  by (simp add: markActive_def)

lemma markActive_priority:
  "x \<in> set (markActive hs xs) \<Longrightarrow> \<exists>y \<in> set xs. fst y = fst x \<and> src_priority (snd y) = src_priority (snd x) \<and>
       src_isActive (snd x) = (Some (fst x) = hs)"
  by (force simp: markActive_def)

lemma markActive_priority_all:
  "(\<forall>x \<in> set (markActive hs xs). P (src_priority (snd x))) = (\<forall>x \<in> set xs. P (src_priority (snd x)))"
  by (auto simp: markActive_def)

lemma filter_key_le1:
  "distinct (map fst xs) \<Longrightarrow> length (filter (\<lambda>x. fst x = k) xs) \<le> 1"
proof (induction xs)
  case Nil
  then show ?case by simp
next
  case (Cons a xs)
  show ?case
  proof (cases "fst a = k")
    case True
    then have "k \<notin> fst ` set xs" using Cons.prems by auto
    then have "filter (\<lambda>x. fst x = k) xs = []" by (auto simp: filter_empty_conv)
    then show ?thesis using True by simp
  next
    case False
    then show ?thesis using Cons by simp
  qed
qed

lemma markActive_filter:
  "filter (\<lambda>x. src_isActive (snd x)) (markActive (Some k) xs)
     = markActive (Some k) (filter (\<lambda>x. fst x = k) xs)"
  by (induction xs) (auto simp: markActive_def)

lemma priorityTable_markActive: "priorityTable (markActive hs xs) = priorityTable xs"
  by (induction xs) (auto simp: markActive_def priorityTable_def)

lemma priorityTable_append: "priorityTable (xs @ ys) = priorityTable xs @ priorityTable ys"
  by (simp add: priorityTable_def)

lemma mapSet_at:
  "k \<notin> fst ` set pre \<Longrightarrow> mapSet k v (pre @ (k, old) # post) = pre @ (k, v) # post"
  by (induction pre) auto

lemma mapSet_new: "k \<notin> fst ` set xs \<Longrightarrow> mapSet k v xs = xs @ [(k, v)]"
  by (induction xs) auto

lemma key_split:
  assumes "k \<in> fst ` set xs"
  shows "\<exists>pre old post. xs = pre @ (k, old) # post \<and> k \<notin> fst ` set pre"
  using assms
proof (induction xs)
  case Nil
  then show ?case by simp
next
  case (Cons a xs)
  show ?case
  proof (cases "fst a = k")
    case True
    then have "a # xs = [] @ (k, snd a) # xs \<and> k \<notin> fst ` set []" by auto
    then show ?thesis by blast
  next
    case False
    then have "k \<in> fst ` set xs" using Cons.prems by auto
    from Cons.IH[OF this] obtain pre old post where d: "xs = pre @ (k, old) # post" "k \<notin> fst ` set pre"
      by blast
    have "a # xs = (a # pre) @ (k, old) # post \<and> k \<notin> fst ` set (a # pre)"
      using d False by auto
    then show ?thesis by blast
  qed
qed

lemma priorityTable_mapSet:
  assumes "distinct (map fst xs)"
  shows "priorityTable (mapSet k v xs) =
     (if k \<in> fst ` set xs
      then map (\<lambda>x. if fst x = k then (k, src_priority v) else x) (priorityTable xs)
      else priorityTable xs @ [(k, src_priority v)])"
  using assms
proof (induction xs)
  case Nil
  then show ?case by (simp add: priorityTable_def)
next
  case (Cons a xs)
  obtain k' i' where a: "a = (k', i')" by (cases a)
  show ?case
  proof (cases "k' = k")
    case True
    then have "k \<notin> fst ` set xs" using Cons.prems a by auto
    then have "map (\<lambda>x. if fst x = k then (k, src_priority v) else x) (priorityTable xs) = priorityTable xs"
      by (induction xs) (auto simp: priorityTable_def)
    then show ?thesis using True a by (simp add: priorityTable_def)
  next
    case False
    then show ?thesis using Cons a by (auto simp: priorityTable_def)
  qed
qed

lemma firstHighestKey_decomp:
  assumes "\<forall>x \<in> set pre. snd x < p" and "\<forall>x \<in> set post. snd x \<le> p"
  shows "firstHighestKey (pre @ (k, p) # post) = Some k"
proof -
  let ?t = "pre @ (k, p) # post"
  let ?P = "\<lambda>x. \<forall>y \<in> set ?t. snd y \<le> snd x"
  have "filter ?P pre = []"
  proof -
    have "\<not> ?P x" if "x \<in> set pre" for x
    proof -
      have "snd x < p" using assms(1) that by blast
      then have "\<not> snd (k, p) \<le> snd x" by simp
      moreover have "(k, p) \<in> set ?t" by simp
      ultimately show ?thesis by blast
    qed
    then show ?thesis by (simp add: filter_empty_conv)
  qed
  moreover have "?P (k, p)" using assms by (auto simp: less_imp_le)
  ultimately have "filter ?P ?t = (k, p) # filter ?P post" by simp
  then show ?thesis by (simp add: firstHighestKey_def)
qed

lemma findHighest_firstHighestKey:
  "snd (findHighest xs (- 1) None) = firstHighestKey (priorityTable xs)"
proof (cases "xs = []")
  case True
  then show ?thesis by (simp add: firstHighestKey_def priorityTable_def)
next
  case False
  from findHighest_nonempty[OF False]
  obtain pre k i post where d: "xs = pre @ (k, i) # post"
      "findHighest xs (- 1) None = (int (src_priority i), Some k)"
      "\<forall>x \<in> set pre. src_priority (snd x) < src_priority i"
      "\<forall>x \<in> set post. src_priority (snd x) \<le> src_priority i"
    by blast
  have t: "priorityTable xs = priorityTable pre @ (k, src_priority i) # priorityTable post"
    by (simp add: d(1) priorityTable_def)
  have "firstHighestKey (priorityTable xs) = Some k"
    unfolding t using d(3,4) by (intro firstHighestKey_decomp) (auto simp: priorityTable_def)
  then show ?thesis by (simp add: d(2))
qed

lemma decomp_unique:
  assumes "distinct (map fst t)" and "t = us @ x # vs" and "t = pre @ (k, p) # post" and "fst x = k"
  shows "us = pre \<and> x = (k, p) \<and> vs = post"
  using assms
proof (induction us arbitrary: t pre)
  case Nil
  show ?case
  proof (cases pre)
    case Nil
    then show ?thesis using Nil.prems by auto
  next
    case (Cons a pre')
    then have "x = a" and "(k, p) \<in> set vs" using Nil.prems by auto
    then show ?thesis using Nil.prems by (auto simp: image_iff) 
  qed
next
  case (Cons u us)
  show ?case
  proof (cases pre)
    case Nil
    then have "u = (k, p)" and "x \<in> set (us @ x # vs)" using Cons.prems by auto
    then show ?thesis using Cons.prems by (auto simp: image_iff)
  next
    case (Cons a pre')
    with Cons.prems have "distinct (map fst (us @ x # vs))" "us @ x # vs = us @ x # vs"
        "us @ x # vs = pre' @ (k, p) # post" "u = a" by auto
    from Cons.IH[OF this(1,2,3) Cons.prems(4)] this(4) Cons show ?thesis by simp
  qed
qed

lemma firstHighestKey_Some:
  assumes "distinct (map fst t)" and "firstHighestKey t = Some k" and "t = pre @ (k, p) # post"
  shows "(\<forall>x \<in> set pre. snd x < p) \<and> (\<forall>x \<in> set post. snd x \<le> p)"
proof -
  let ?P = "\<lambda>x. \<forall>y \<in> set t. snd y \<le> snd x"
  from assms(2) obtain x rest where f: "filter ?P t = x # rest" and x: "fst x = k"
    by (auto simp: firstHighestKey_def split: list.splits)
  from f obtain us vs where d: "t = us @ x # vs" "\<forall>u \<in> set us. \<not> ?P u" "?P x"
    by (auto simp: filter_eq_Cons_iff)
  from decomp_unique[OF assms(1) d(1) assms(3) x] have e: "us = pre" "x = (k, p)" "vs = post" by auto
  have mx: "\<forall>y \<in> set t. snd y \<le> p" using d(3) e by simp
  have "snd u < p" if "u \<in> set pre" for u
  proof -
    from d(2) that e obtain y where "y \<in> set t" "\<not> snd y \<le> snd u" by blast
    with mx show ?thesis by fastforce
  qed
  moreover have "snd u \<le> p" if "u \<in> set post" for u using mx that assms(3) by simp
  ultimately show ?thesis by blast
qed


lemma filter_key_eq1:
  "distinct (map fst xs) \<Longrightarrow> k \<in> fst ` set xs \<Longrightarrow> length (filter (\<lambda>x. fst x = k) xs) = 1"
proof (induction xs)
  case Nil
  then show ?case by simp
next
  case (Cons a xs)
  show ?case
  proof (cases "fst a = k")
    case True
    then have "k \<notin> fst ` set xs" using Cons.prems by auto
    then have "filter (\<lambda>x. fst x = k) xs = []" by (auto simp: filter_empty_conv)
    then show ?thesis using True by simp
  next
    case False
    then have "k \<in> fst ` set xs" using Cons.prems by auto
    then show ?thesis using False Cons by simp
  qed
qed

lemma markActive_invariant:
  assumes "distinct (map fst xs)" and "xs \<noteq> []"
  shows "arbitrationInvariant (h\<lparr>sources := markActive (snd (findHighest xs (- 1) None)) xs,
                                 activeSource := snd (findHighest xs (- 1) None)\<rparr>)"
proof -
  from findHighest_nonempty[OF assms(2)]
  obtain pre k i post where d: "xs = pre @ (k, i) # post"
      "findHighest xs (- 1) None = (int (src_priority i), Some k)"
      "\<forall>x \<in> set pre. src_priority (snd x) < src_priority i"
      "\<forall>x \<in> set post. src_priority (snd x) \<le> src_priority i"
    by blast
  have hs: "snd (findHighest xs (- 1) None) = Some k" using d(2) by simp
  have ki: "(k, i) \<in> set xs" by (simp add: d)
  then have kk: "k \<in> fst ` set xs" by force
  have one: "length (filter (\<lambda>x. src_isActive (snd x)) (markActive (Some k) xs)) = 1"
    using filter_key_eq1[OF assms(1) kk] by (simp add: markActive_filter length_markActive)
  have ne: "markActive (Some k) xs \<noteq> []" using assms(2) by (simp add: markActive_def)
  have maxi: "\<forall>y \<in> set xs. src_priority (snd y) \<le> src_priority i"
    using d(3,4) by (auto simp: d(1) less_imp_le)
  have flag: "\<forall>x \<in> set (markActive (Some k) xs). src_isActive (snd x) \<longleftrightarrow> Some k = Some (fst x)"
    using markActive_priority[of _ "Some k" xs] by auto
  have act: "\<forall>x \<in> set (markActive (Some k) xs). src_isActive (snd x) \<longrightarrow>
        (\<forall>y \<in> set (markActive (Some k) xs). src_priority (snd y) \<le> src_priority (snd x))"
  proof (rule ballI, rule impI)
    fix x assume x: "x \<in> set (markActive (Some k) xs)" "src_isActive (snd x)"
    from markActive_priority[OF x(1)] x(2)
    obtain y where y: "y \<in> set xs" "fst y = fst x" "src_priority (snd y) = src_priority (snd x)" "fst x = k"
      by auto
    have "y = (k, i)"
      using assms(1) y ki by (metis eq_key_imp_eq_value prod.collapse)
    then have "src_priority (snd x) = src_priority i" using y by simp
    then show "\<forall>y \<in> set (markActive (Some k) xs). src_priority (snd y) \<le> src_priority (snd x)"
      using maxi markActive_priority_all[of "Some k" xs "\<lambda>p. p \<le> src_priority i"] by simp
  qed
  show ?thesis
    unfolding arbitrationInvariant_def using assms(1) one ne flag act by (simp add: hs markActive_fst)
qed

lemma markActive_election:
  assumes "distinct (map fst xs)"
  shows "electionInvariant (h\<lparr>sources := markActive (snd (findHighest xs (- 1) None)) xs,
                              activeSource := snd (findHighest xs (- 1) None)\<rparr>)"
  using assms
  by (simp add: electionInvariant_def markActive_fst priorityTable_markActive findHighest_firstHighestKey)

lemma distinct_filter_fst: "distinct (map fst xs) \<Longrightarrow> distinct (map fst (filter P xs))"
  by (induction xs) auto

lemma filter_length_id: "\<not> length (filter P xs) < length xs \<Longrightarrow> filter P xs = xs"
proof (induction xs)
  case Nil
  then show ?case by simp
next
  case (Cons a xs)
  have le: "length (filter P xs) \<le> length xs" by (rule length_filter_le)
  show ?case
  proof (cases "P a")
    case True
    then show ?thesis using Cons by simp
  next
    case False
    then show ?thesis using Cons.prems le by simp
  qed
qed

text \<open>The handler after a sweep, in one equation for each of its three cases.\<close>

lemma cleanup_cases:
  "(filter (\<lambda>x. \<not> isStale now (snd x)) (sources h) = sources h \<and>
      cleanupStaleSources now h = (h, [])) \<or>
   (filter (\<lambda>x. \<not> isStale now (snd x)) (sources h) = [] \<and> sources h \<noteq> [] \<and>
      fst (cleanupStaleSources now h) = h\<lparr>sources := [], activeSource := None\<rparr>) \<or>
   (filter (\<lambda>x. \<not> isStale now (snd x)) (sources h) \<noteq> [] \<and>
      fst (cleanupStaleSources now h)
        = h\<lparr>sources := markActive (snd (findHighest (filter (\<lambda>x. \<not> isStale now (snd x)) (sources h)) (- 1) None))
                          (filter (\<lambda>x. \<not> isStale now (snd x)) (sources h)),
             activeSource := snd (findHighest (filter (\<lambda>x. \<not> isStale now (snd x)) (sources h)) (- 1) None)\<rparr>)"
proof -
  let ?kept = "filter (\<lambda>x. \<not> isStale now (snd x)) (sources h)"
  have k: "filter (\<lambda>(name, info). \<not> (now - src_lastSeen info > SOURCE_TIMEOUT_MS)) (sources h) = ?kept"
    by (simp add: isStale_def case_prod_unfold)
  show ?thesis
  proof (cases "length ?kept < length (sources h)")
    case False
    then have "?kept = sources h" by (rule filter_length_id)
    moreover have "cleanupStaleSources now h = (h, [])"
      using False unfolding cleanupStaleSources_def k by (simp add: Let_def)
    ultimately show ?thesis by blast
  next
    case True
    then have ne: "sources h \<noteq> []" by auto
    show ?thesis
    proof (cases "?kept = []")
      case e: True
      have "fst (cleanupStaleSources now h) = h\<lparr>sources := [], activeSource := None\<rparr>"
        using True e unfolding cleanupStaleSources_def k by (simp add: Let_def)
      with e ne show ?thesis by blast
    next
      case e: False
      have "fst (cleanupStaleSources now h)
        = h\<lparr>sources := markActive (snd (findHighest ?kept (- 1) None)) ?kept,
             activeSource := snd (findHighest ?kept (- 1) None)\<rparr>"
        using True e unfolding cleanupStaleSources_def k by (simp add: Let_def)
      with e show ?thesis by blast
    qed
  qed
qed

lemma cleanup_invariant:
  assumes "arbitrationInvariant h"
  shows "arbitrationInvariant (fst (cleanupStaleSources now h))"
proof -
  let ?kept = "filter (\<lambda>x. \<not> isStale now (snd x)) (sources h)"
  have dk: "distinct (map fst ?kept)"
    using assms by (intro distinct_filter_fst) (simp add: arbitrationInvariant_def)
  from cleanup_cases[of now h] show ?thesis
  proof (elim disjE conjE)
    assume "cleanupStaleSources now h = (h, [])"
    then show ?thesis using assms by simp
  next
    assume "fst (cleanupStaleSources now h) = h\<lparr>sources := [], activeSource := None\<rparr>"
    then show ?thesis by (simp add: arbitrationInvariant_def)
  next
    assume ne: "?kept \<noteq> []" and e: "fst (cleanupStaleSources now h)
        = h\<lparr>sources := markActive (snd (findHighest ?kept (- 1) None)) ?kept,
             activeSource := snd (findHighest ?kept (- 1) None)\<rparr>"
    show ?thesis unfolding e by (rule markActive_invariant[OF dk ne])
  qed
qed

lemma cleanup_election:
  assumes "electionInvariant h"
  shows "electionInvariant (fst (cleanupStaleSources now h))"
proof -
  let ?kept = "filter (\<lambda>x. \<not> isStale now (snd x)) (sources h)"
  have dk: "distinct (map fst ?kept)"
    using assms by (intro distinct_filter_fst) (simp add: electionInvariant_def)
  from cleanup_cases[of now h] show ?thesis
  proof (elim disjE conjE)
    assume "cleanupStaleSources now h = (h, [])"
    then show ?thesis using assms by simp
  next
    assume "fst (cleanupStaleSources now h) = h\<lparr>sources := [], activeSource := None\<rparr>"
    then show ?thesis by (simp add: electionInvariant_def firstHighestKey_def priorityTable_def)
  next
    assume e: "fst (cleanupStaleSources now h)
        = h\<lparr>sources := markActive (snd (findHighest ?kept (- 1) None)) ?kept,
             activeSource := snd (findHighest ?kept (- 1) None)\<rparr>"
    show ?thesis unfolding e by (rule markActive_election[OF dk])
  qed
qed

lemma cleanup_table:
  "priorityTable (sources (fst (cleanupStaleSources now h)))
     = priorityTable (filter (\<lambda>x. \<not> isStale now (snd x)) (sources h))"
  using cleanup_cases[of now h]
  by (elim disjE conjE) (simp_all add: priorityTable_markActive)

lemma handlePacket_valid_handler:
  assumes "isValidUniverse (sp_universe packet)"
  shows "sources (fst (handlePacket packet now h))
              = markActive (snd (findHighest (mapSet (getSourceKey packet)
                       (trackedInfo packet now) (sources h)) (- 1) None))
                     (mapSet (getSourceKey packet) (trackedInfo packet now) (sources h)) \<and>
         activeSource (fst (handlePacket packet now h))
              = snd (findHighest (mapSet (getSourceKey packet)
                       (trackedInfo packet now) (sources h)) (- 1) None) \<and>
         map_option ui_packetCount
              (sacnUniverses (fst (handlePacket packet now h)) (nat (sp_universe packet)))
              = Some (case sacnUniverses h (nat (sp_universe packet)) of
                        None \<Rightarrow> 1 | Some info \<Rightarrow> ui_packetCount info + 1)"
  using assms
  by (cases "sacnUniverses h (nat (sp_universe packet))")
     (simp_all add: handlePacket_def updateSourceTracking_def Let_def trackedInfo_def packetPriority_def)

lemma handlePacket_emits_iff:
  assumes "isValidUniverse (sp_universe packet)"
  shows "(sacnPackets (snd (handlePacket packet now h)) \<noteq> [] \<longleftrightarrow>
            activeSource (fst (handlePacket packet now h)) = Some (getSourceKey packet)) \<and>
         length (sacnPackets (snd (handlePacket packet now h))) \<le> 1"
proof -
  have sp: "sacnPackets (xs @ ys) = sacnPackets xs @ sacnPackets ys" for xs ys
    by (induction xs rule: sacnPackets.induct) auto
  show ?thesis
    using assms
    by (cases "sacnUniverses h (nat (sp_universe packet))")
       (auto simp: handlePacket_def updateSourceTracking_def Let_def sp)
qed

lemma handlePacket_invalid:
  assumes "\<not> isValidUniverse (sp_universe packet)"
  shows "handlePacket packet now h = (h, [SacnInvalidUniverse (sp_universe packet)])"
  using assms by (simp add: handlePacket_def Let_def)


lemma mapSet_decomp:
  assumes "distinct (map fst xs)"
  shows "\<exists>ys zs. mapSet k v xs = ys @ (k, v) # zs \<and> set ys \<subseteq> set xs \<and> set zs \<subseteq> set xs \<and>
           k \<notin> fst ` set ys \<and> k \<notin> fst ` set zs"
proof (cases "k \<in> fst ` set xs")
  case True
  from key_split[OF True] obtain pre old post where d: "xs = pre @ (k, old) # post" "k \<notin> fst ` set pre"
    by blast
  have "k \<notin> fst ` set post" using assms unfolding d(1) by auto
  moreover have "mapSet k v xs = pre @ (k, v) # post" unfolding d(1) by (rule mapSet_at[OF d(2)])
  moreover have "set pre \<subseteq> set xs" "set post \<subseteq> set xs" unfolding d(1) by auto
  ultimately show ?thesis using d(2) by blast
next
  case False
  then have "mapSet k v xs = xs @ (k, v) # [] \<and> set xs \<subseteq> set xs \<and> set [] \<subseteq> set xs \<and>
      k \<notin> fst ` set xs \<and> k \<notin> fst ` set []"
    by (simp add: mapSet_new)
  then show ?thesis by blast
qed

lemma elect_higher:
  assumes "distinct (map fst xs)"
    and "\<forall>x \<in> set xs. fst x \<noteq> k \<longrightarrow> src_priority (snd x) < src_priority v"
  shows "snd (findHighest (mapSet k v xs) (- 1) None) = Some k"
proof -
  from mapSet_decomp[OF assms(1), of k v] obtain ys zs where d: "mapSet k v xs = ys @ (k, v) # zs"
      "set ys \<subseteq> set xs" "set zs \<subseteq> set xs" "k \<notin> fst ` set ys" "k \<notin> fst ` set zs"
    by blast
  have "\<forall>x \<in> set ys. src_priority (snd x) < src_priority v"
    using assms(2) d(2,4) by (auto simp: image_iff)
  moreover have "\<forall>x \<in> set zs. src_priority (snd x) \<le> src_priority v"
    using assms(2) d(3,5) by (fastforce simp: image_iff less_imp_le)
  ultimately have "findHighest (ys @ (k, v) # zs) (- 1) None = (int (src_priority v), Some k)"
    by (rule findHighest_first_max)
  then show ?thesis by (simp add: d(1))
qed

lemma elected_is_highest:
  assumes "distinct (map fst xs)"
    and "snd (findHighest (mapSet k v xs) (- 1) None) = Some k"
  shows "\<forall>x \<in> set xs. fst x \<noteq> k \<longrightarrow> src_priority (snd x) \<le> src_priority v"
proof -
  from mapSet_decomp[OF assms(1), of k v] obtain ys zs where d: "mapSet k v xs = ys @ (k, v) # zs"
      "set ys \<subseteq> set xs" "set zs \<subseteq> set xs" "k \<notin> fst ` set ys" "k \<notin> fst ` set zs"
    by blast
  from findHighest_nonempty[OF mapSet_ne, of k v xs]
  obtain pre k' i post where e: "mapSet k v xs = pre @ (k', i) # post"
      "findHighest (mapSet k v xs) (- 1) None = (int (src_priority i), Some k')"
      "\<forall>x \<in> set pre. src_priority (snd x) < src_priority i"
      "\<forall>x \<in> set post. src_priority (snd x) \<le> src_priority i"
    by blast
  have kk: "k' = k" using assms(2) e(2) by simp
  have dm: "distinct (map fst (mapSet k v xs))" by (rule distinct_mapSet[OF assms(1)])
  from decomp_unique[OF dm d(1) e(1)[unfolded kk]] have u: "ys = pre" "i = v" "zs = post" by auto
  have mx: "\<forall>x \<in> set (mapSet k v xs). src_priority (snd x) \<le> src_priority v"
    using e(3,4) unfolding e(1) u by (auto simp: less_imp_le)
  have mem: "x \<in> set xs \<Longrightarrow> fst x \<noteq> k \<Longrightarrow> x \<in> set (mapSet k v xs)" for x
    by (induction xs) (auto split: if_splits)
  show ?thesis using mx mem by blast
qed

lemma elect_stays_later:
  assumes "\<forall>x \<in> set pre. src_priority (snd x) < src_priority iA"
    and "\<forall>x \<in> set post. src_priority (snd x) \<le> src_priority iA"
    and "k \<noteq> A" and "k \<notin> fst ` set pre" and "src_priority v \<le> src_priority iA"
  shows "snd (findHighest (mapSet k v (pre @ (A, iA) # post)) (- 1) None) = Some A"
proof -
  have sk: "mapSet k v (pre @ (A, iA) # post) = pre @ (A, iA) # mapSet k v post"
    using assms(3,4) by (simp add: mapSet_skip)
  have "\<forall>x \<in> set (mapSet k v post). src_priority (snd x) \<le> src_priority iA"
    using assms(2,5) set_mapSet[of k v post] by auto
  with assms(1) have "findHighest (pre @ (A, iA) # mapSet k v post) (- 1) None = (int (src_priority iA), Some A)"
    by (intro findHighest_first_max) auto
  then show ?thesis by (simp add: sk)
qed

lemma elect_earlier:
  assumes "\<forall>x \<in> set pre. src_priority (snd x) < src_priority iA"
    and "\<forall>x \<in> set post. src_priority (snd x) \<le> src_priority iA"
    and "k \<noteq> A" and "k \<in> fst ` set pre"
  shows "src_priority v < src_priority iA \<Longrightarrow>
           snd (findHighest (mapSet k v (pre @ (A, iA) # post)) (- 1) None) = Some A"
    and "src_priority v = src_priority iA \<Longrightarrow>
           snd (findHighest (mapSet k v (pre @ (A, iA) # post)) (- 1) None) = Some k"
proof -
  from key_split[OF assms(4)] obtain q1 old q2 where d: "pre = q1 @ (k, old) # q2" "k \<notin> fst ` set q1"
    by blast
  have m: "mapSet k v (pre @ (A, iA) # post) = q1 @ (k, v) # q2 @ (A, iA) # post"
    using mapSet_at[OF d(2), of v old "q2 @ (A, iA) # post"] by (simp add: d(1))
  have q1: "\<forall>x \<in> set q1. src_priority (snd x) < src_priority iA"
    and q2: "\<forall>x \<in> set q2. src_priority (snd x) < src_priority iA"
    using assms(1) by (auto simp: d(1))
  {
    assume lt: "src_priority v < src_priority iA"
    have "\<forall>x \<in> set (q1 @ (k, v) # q2). src_priority (snd x) < src_priority iA"
      using q1 q2 lt by auto
    with assms(2) have "findHighest ((q1 @ (k, v) # q2) @ (A, iA) # post) (- 1) None
        = (int (src_priority iA), Some A)"
      by (intro findHighest_first_max) auto
    then show "snd (findHighest (mapSet k v (pre @ (A, iA) # post)) (- 1) None) = Some A"
      by (simp add: m)
  }
  {
    assume eq: "src_priority v = src_priority iA"
    have "\<forall>x \<in> set (q2 @ (A, iA) # post). src_priority (snd x) \<le> src_priority v"
      using q2 assms(2) eq by (auto simp: less_imp_le)
    moreover have "\<forall>x \<in> set q1. src_priority (snd x) < src_priority v" using q1 eq by simp
    ultimately have "findHighest (q1 @ (k, v) # q2 @ (A, iA) # post) (- 1) None
        = (int (src_priority v), Some k)"
      by (intro findHighest_first_max) auto
    then show "snd (findHighest (mapSet k v (pre @ (A, iA) # post)) (- 1) None) = Some k"
      by (simp add: m)
  }
qed

lemma elect_stays_self:
  assumes "\<forall>x \<in> set pre. src_priority (snd x) < src_priority iA"
    and "\<forall>x \<in> set post. src_priority (snd x) \<le> src_priority iA"
    and "A \<notin> fst ` set pre" and "src_priority iA \<le> src_priority v"
  shows "snd (findHighest (mapSet A v (pre @ (A, iA) # post)) (- 1) None) = Some A"
proof -
  have m: "mapSet A v (pre @ (A, iA) # post) = pre @ (A, v) # post"
    by (rule mapSet_at[OF assms(3)])
  have "findHighest (pre @ (A, v) # post) (- 1) None = (int (src_priority v), Some A)"
    using assms(1,2,4) by (intro findHighest_first_max) auto
  then show ?thesis by (simp add: m)
qed

lemma election_decomp:
  assumes "electionInvariant h" and "activeSource h = Some A" and "sources h = pre @ (A, iA) # post"
  shows "(\<forall>x \<in> set pre. src_priority (snd x) < src_priority iA) \<and>
         (\<forall>x \<in> set post. src_priority (snd x) \<le> src_priority iA) \<and> A \<notin> fst ` set pre"
proof -
  have d: "distinct (map fst (priorityTable (sources h)))"
    using assms(1) by (simp add: electionInvariant_def priorityTable_def comp_def)
  have f: "firstHighestKey (priorityTable (sources h)) = Some A"
    using assms(1,2) by (simp add: electionInvariant_def)
  have t: "priorityTable (sources h) = priorityTable pre @ (A, src_priority iA) # priorityTable post"
    by (simp add: assms(3) priorityTable_def)
  from firstHighestKey_Some[OF d f t]
  have "(\<forall>x \<in> set pre. src_priority (snd x) < src_priority iA) \<and>
        (\<forall>x \<in> set post. src_priority (snd x) \<le> src_priority iA)"
    by (simp add: priorityTable_def)
  moreover have "A \<notin> fst ` set pre"
    using assms(1) by (auto simp: electionInvariant_def assms(3))
  ultimately show ?thesis by blast
qed

lemma election_None:
  assumes "electionInvariant h" and "activeSource h = None"
  shows "sources h = []"
proof (rule ccontr)
  assume ne: "sources h \<noteq> []"
  from findHighest_nonempty[OF ne] obtain pre k i post
    where f: "findHighest (sources h) (- 1) None = (int (src_priority (i :: SACNSourceInfo)), Some k)"
    by blast
  have "firstHighestKey (priorityTable (sources h)) = Some k"
    unfolding findHighest_firstHighestKey[of "sources h", symmetric] by (simp add: f)
  with assms show False by (simp add: electionInvariant_def)
qed

lemma cleanup_keeps_active:
  assumes "electionInvariant h" and "activeSource h = Some A" and "sources h = pre @ (A, iA) # post"
    and "\<not> isStale now iA"
  shows "activeSource (fst (cleanupStaleSources now h)) = Some A"
proof -
  let ?F = "filter (\<lambda>x. \<not> isStale now (snd x))"
  from election_decomp[OF assms(1,2,3)]
  have p: "\<forall>x \<in> set pre. src_priority (snd x) < src_priority iA"
    "\<forall>x \<in> set post. src_priority (snd x) \<le> src_priority iA" by blast+
  have k: "?F (sources h) = ?F pre @ (A, iA) # ?F post"
    using assms(4) by (simp add: assms(3))
  have fh: "findHighest (?F pre @ (A, iA) # ?F post) (- 1) None = (int (src_priority iA), Some A)"
    using p by (intro findHighest_first_max) auto
  from cleanup_cases[of now h] show ?thesis
  proof (elim disjE conjE)
    assume "cleanupStaleSources now h = (h, [])"
    then show ?thesis using assms(2) by simp
  next
    assume "?F (sources h) = []"
    then show ?thesis using k by simp
  next
    assume e: "fst (cleanupStaleSources now h)
        = h\<lparr>sources := markActive (snd (findHighest (?F (sources h)) (- 1) None)) (?F (sources h)),
             activeSource := snd (findHighest (?F (sources h)) (- 1) None)\<rparr>"
    show ?thesis unfolding e using fh by (simp add: k)
  qed
qed

lemma handlePacket_invariant:
  assumes "arbitrationInvariant h"
  shows "arbitrationInvariant (fst (handlePacket packet now h))"
proof (cases "isValidUniverse (sp_universe packet)")
  case False
  then show ?thesis using assms by (simp add: handlePacket_invalid)
next
  case True
  have d: "distinct (map fst (sources h))" using assms by (simp add: arbitrationInvariant_def)
  have "arbitrationInvariant ((fst (handlePacket packet now h))
          \<lparr>sources := sources (fst (handlePacket packet now h)),
           activeSource := activeSource (fst (handlePacket packet now h))\<rparr>)"
    using handlePacket_valid_handler[OF True, of now h]
      markActive_invariant[OF distinct_mapSet[OF d] mapSet_ne,
        of "getSourceKey packet" "trackedInfo packet now" "fst (handlePacket packet now h)"]
    by simp
  then show ?thesis by simp
qed

lemma handlePacket_election:
  assumes "electionInvariant h"
  shows "electionInvariant (fst (handlePacket packet now h))"
proof (cases "isValidUniverse (sp_universe packet)")
  case False
  then show ?thesis using assms by (simp add: handlePacket_invalid)
next
  case True
  have d: "distinct (map fst (sources h))" using assms by (simp add: electionInvariant_def)
  have "electionInvariant ((fst (handlePacket packet now h))
          \<lparr>sources := sources (fst (handlePacket packet now h)),
           activeSource := activeSource (fst (handlePacket packet now h))\<rparr>)"
    using handlePacket_valid_handler[OF True, of now h]
      markActive_election[OF distinct_mapSet[OF d],
        of "getSourceKey packet" "trackedInfo packet now" "fst (handlePacket packet now h)"]
    by simp
  then show ?thesis by simp
qed

lemma handlePacket_table:
  assumes "distinct (map fst (sources h))" and "isValidUniverse (sp_universe packet)"
  shows "priorityTable (sources (fst (handlePacket packet now h))) =
     (if getSourceKey packet \<in> fst ` set (sources h)
      then map (\<lambda>x. if fst x = getSourceKey packet then (getSourceKey packet, packetPriority packet) else x)
             (priorityTable (sources h))
      else priorityTable (sources h) @ [(getSourceKey packet, packetPriority packet)])"
proof -
  have "src_priority (trackedInfo packet now) = packetPriority packet" by (simp add: trackedInfo_def)
  then show ?thesis
    using handlePacket_valid_handler[OF assms(2), of now h]
      priorityTable_mapSet[OF assms(1), of "getSourceKey packet" "trackedInfo packet now"]
    by (simp add: priorityTable_markActive)
qed

text \<open>
  C9 (as the code has it). The invariant holds of the initial handler and is preserved by
  packet handling and by the cleanup sweep: the keys of the source table are distinct, a
  table that is not empty has exactly one entry flagged active (an empty one has none and
  no active source), an entry is flagged if and only if \<open>activeSource\<close> names it, and the
  flagged entry has the highest priority of the tracked sources. The sweep keeps exactly
  the entries that are not stale, in their order and with their priorities. For an
  incoming packet with a valid universe (\<open>0..63999\<close>): the table afterwards is the table
  before with the packet's source set to the packet's priority (in its place if it was
  tracked, at the end otherwise); a DMX packet is emitted if and only if the packet's
  source key is the active source's key after the update, and at most one is emitted; if
  one is emitted, no other tracked source has a greater priority than the packet; if every
  other tracked source has a smaller priority than the packet, one is emitted; and the
  packet is counted for its universe whether it is emitted or suppressed. A packet with an
  invalid universe leaves the handler as it is (it is neither counted nor tracked) and
  emits nothing.
\<close>

theorem arbitration_invariant:
  "arbitrationInvariant initialSACNHandler \<and>
   (arbitrationInvariant h \<longrightarrow>
      arbitrationInvariant (fst (handlePacket packet now h)) \<and>
      arbitrationInvariant (fst (cleanupStaleSources now h)) \<and>
      priorityTable (sources (fst (cleanupStaleSources now h)))
        = priorityTable (filter (\<lambda>x. \<not> isStale now (snd x)) (sources h)) \<and>
      (isValidUniverse (sp_universe packet) \<longrightarrow>
         priorityTable (sources (fst (handlePacket packet now h))) =
           (if getSourceKey packet \<in> fst ` set (sources h)
            then map (\<lambda>x. if fst x = getSourceKey packet
                           then (getSourceKey packet, packetPriority packet) else x)
                   (priorityTable (sources h))
            else priorityTable (sources h) @ [(getSourceKey packet, packetPriority packet)]) \<and>
         (sacnPackets (snd (handlePacket packet now h)) \<noteq> [] \<longleftrightarrow>
            activeSource (fst (handlePacket packet now h)) = Some (getSourceKey packet)) \<and>
         length (sacnPackets (snd (handlePacket packet now h))) \<le> 1 \<and>
         (sacnPackets (snd (handlePacket packet now h)) \<noteq> [] \<longrightarrow>
            (\<forall>x \<in> set (sources h). fst x \<noteq> getSourceKey packet \<longrightarrow>
               src_priority (snd x) \<le> packetPriority packet)) \<and>
         ((\<forall>x \<in> set (sources h). fst x \<noteq> getSourceKey packet \<longrightarrow>
               src_priority (snd x) < packetPriority packet) \<longrightarrow>
            sacnPackets (snd (handlePacket packet now h)) \<noteq> []) \<and>
         map_option ui_packetCount
            (sacnUniverses (fst (handlePacket packet now h)) (nat (sp_universe packet)))
           = Some (case sacnUniverses h (nat (sp_universe packet)) of
                     None \<Rightarrow> 1 | Some info \<Rightarrow> ui_packetCount info + 1))) \<and>
   (\<not> isValidUniverse (sp_universe packet) \<longrightarrow>
      fst (handlePacket packet now h) = h \<and> sacnPackets (snd (handlePacket packet now h)) = [])"
proof (intro conjI impI)
  show "arbitrationInvariant initialSACNHandler"
    by (simp add: arbitrationInvariant_def initialSACNHandler_def)
next
  assume "arbitrationInvariant h"
  then show "arbitrationInvariant (fst (handlePacket packet now h))"
    by (rule handlePacket_invariant)
next
  assume "arbitrationInvariant h"
  then show "arbitrationInvariant (fst (cleanupStaleSources now h))"
    by (rule cleanup_invariant)
next
  show "priorityTable (sources (fst (cleanupStaleSources now h)))
        = priorityTable (filter (\<lambda>x. \<not> isStale now (snd x)) (sources h))"
    by (rule cleanup_table)
next
  assume i: "arbitrationInvariant h" and v: "isValidUniverse (sp_universe packet)"
  have d: "distinct (map fst (sources h))" using i by (simp add: arbitrationInvariant_def)
  show "priorityTable (sources (fst (handlePacket packet now h))) =
           (if getSourceKey packet \<in> fst ` set (sources h)
            then map (\<lambda>x. if fst x = getSourceKey packet
                           then (getSourceKey packet, packetPriority packet) else x)
                   (priorityTable (sources h))
            else priorityTable (sources h) @ [(getSourceKey packet, packetPriority packet)])"
    by (rule handlePacket_table[OF d v])
next
  assume v: "isValidUniverse (sp_universe packet)"
  from handlePacket_emits_iff[OF v, of now h]
  show "sacnPackets (snd (handlePacket packet now h)) \<noteq> [] \<longleftrightarrow>
         activeSource (fst (handlePacket packet now h)) = Some (getSourceKey packet)"
    by blast
next
  assume v: "isValidUniverse (sp_universe packet)"
  from handlePacket_emits_iff[OF v, of now h]
  show "length (sacnPackets (snd (handlePacket packet now h))) \<le> 1" by blast
next
  assume i: "arbitrationInvariant h" and v: "isValidUniverse (sp_universe packet)"
    and e: "sacnPackets (snd (handlePacket packet now h)) \<noteq> []"
  have d: "distinct (map fst (sources h))" using i by (simp add: arbitrationInvariant_def)
  have "snd (findHighest (mapSet (getSourceKey packet) (trackedInfo packet now) (sources h)) (- 1) None)
          = Some (getSourceKey packet)"
    using handlePacket_emits_iff[OF v, of now h] handlePacket_valid_handler[OF v, of now h] e by simp
  from elected_is_highest[OF d this]
  show "\<forall>x \<in> set (sources h). fst x \<noteq> getSourceKey packet \<longrightarrow>
               src_priority (snd x) \<le> packetPriority packet"
    by (simp add: trackedInfo_def)
next
  assume i: "arbitrationInvariant h" and v: "isValidUniverse (sp_universe packet)"
    and lt: "\<forall>x \<in> set (sources h). fst x \<noteq> getSourceKey packet \<longrightarrow>
               src_priority (snd x) < packetPriority packet"
  have d: "distinct (map fst (sources h))" using i by (simp add: arbitrationInvariant_def)
  have "\<forall>x \<in> set (sources h). fst x \<noteq> getSourceKey packet \<longrightarrow>
               src_priority (snd x) < src_priority (trackedInfo packet now)"
    using lt by (simp add: trackedInfo_def)
  from elect_higher[OF d this]
  show "sacnPackets (snd (handlePacket packet now h)) \<noteq> []"
    using handlePacket_emits_iff[OF v, of now h] handlePacket_valid_handler[OF v, of now h] by simp
next
  assume v: "isValidUniverse (sp_universe packet)"
  from handlePacket_valid_handler[OF v, of now h]
  show "map_option ui_packetCount
         (sacnUniverses (fst (handlePacket packet now h)) (nat (sp_universe packet)))
        = Some (case sacnUniverses h (nat (sp_universe packet)) of
                  None \<Rightarrow> 1 | Some info \<Rightarrow> ui_packetCount info + 1)"
    by blast
next
  assume "\<not> isValidUniverse (sp_universe packet)"
  then show "fst (handlePacket packet now h) = h" by (simp add: handlePacket_invalid)
next
  assume "\<not> isValidUniverse (sp_universe packet)"
  then show "sacnPackets (snd (handlePacket packet now h)) = []" by (simp add: handlePacket_invalid)
qed

lemma ex_keyA: "getSourceKey (examplePacket name u p) = name"
  by (simp add: getSourceKey_def examplePacket_def orUnknown_def)

lemma ex_valid: "isValidUniverse (sp_universe (examplePacket name 1 p))"
  by (simp add: examplePacket_def isValidUniverse_def)

lemma ex_priority: "packetPriority (examplePacket name u p) = p"
  by (simp add: examplePacket_def packetPriority_def)

theorem arbitration_invariant_witness:
  "arbitrationInvariant handlerWithA \<and>
   arbitrationInvariant (fst (handlePacket (examplePacket ''B'' 1 50) 10 handlerWithA)) \<and>
   arbitrationInvariant (fst (cleanupStaleSources 10 handlerWithA)) \<and>
   sacnPackets (snd (handlePacket (examplePacket ''B'' 1 50) 10 handlerWithA)) = [] \<and>
   sacnPackets (snd (handlePacket (examplePacket ''B'' 1 200) 10 handlerWithA)) \<noteq> []"
proof -
  have s: "sources handlerWithA = [(''A'', \<lparr>src_sourceName = ''A'', src_sourceAddress = None,
              src_priority = 100, src_lastSeen = 0, src_isActive = True\<rparr>)]"
    by (simp add: handlerWithA_def handlePacket_def updateSourceTracking_def Let_def
        examplePacket_def isValidUniverse_def initialSACNHandler_def getSourceKey_def
        orUnknown_def markActive_def)
  have a: "arbitrationInvariant handlerWithA"
    using arbitration_invariant [of initialSACNHandler "examplePacket ''A'' 1 100" 0]
    by (simp add: handlerWithA_def)
  from arbitration_invariant [of handlerWithA "examplePacket ''B'' 1 50" 10] a
  have b: "arbitrationInvariant (fst (handlePacket (examplePacket ''B'' 1 50) 10 handlerWithA))"
    "arbitrationInvariant (fst (cleanupStaleSources 10 handlerWithA))"
    "sacnPackets (snd (handlePacket (examplePacket ''B'' 1 50) 10 handlerWithA)) \<noteq> [] \<longrightarrow>
       (\<forall>x \<in> set (sources handlerWithA). fst x \<noteq> ''B'' \<longrightarrow> src_priority (snd x) \<le> 50)"
    by (simp_all add: ex_keyA ex_valid ex_priority)
  from b(3) have c: "sacnPackets (snd (handlePacket (examplePacket ''B'' 1 50) 10 handlerWithA)) = []"
    by (auto simp: s)
  from arbitration_invariant [of handlerWithA "examplePacket ''B'' 1 200" 10] a
  have "(\<forall>x \<in> set (sources handlerWithA). fst x \<noteq> ''B'' \<longrightarrow> src_priority (snd x) < 200) \<longrightarrow>
       sacnPackets (snd (handlePacket (examplePacket ''B'' 1 200) 10 handlerWithA)) \<noteq> []"
    by (simp add: ex_keyA ex_valid ex_priority)
  then have e: "sacnPackets (snd (handlePacket (examplePacket ''B'' 1 200) 10 handlerWithA)) \<noteq> []"
    by (simp add: s)
  show ?thesis using a b(1,2) c e by simp
qed

text \<open>
  C9 as stated fails: a packet of the active source whose universe is 64000 is dropped
  before arbitration, so no DMX packet is emitted although its key is the active key.
\<close>

theorem arbitration_emit_counterexample:
  "activeSource (fst (handlePacket (examplePacket ''A'' 64000 100) 10
       (fst (handlePacket (examplePacket ''A'' 1 100) 0 initialSACNHandler))))
     = Some (getSourceKey (examplePacket ''A'' 64000 100)) \<and>
   sacnPackets (snd (handlePacket (examplePacket ''A'' 64000 100) 10
       (fst (handlePacket (examplePacket ''A'' 1 100) 0 initialSACNHandler)))) = []"
  by (simp add: handlePacket_def updateSourceTracking_def Let_def examplePacket_def
        isValidUniverse_def initialSACNHandler_def getSourceKey_def orUnknown_def)

text \<open>
  C2 (as the code has it). \<open>electionInvariant\<close> holds of the initial handler and is
  preserved by every packet and every cleanup sweep: the active source is the tracked
  source with the greatest priority and, on ties, the tied source that stands first in
  the source table (every entry before it has a strictly smaller priority, every entry
  after it a smaller or equal one; there is no active source only when the table is
  empty). The order of the table is the order of insertion: a packet with a valid
  universe sets the priority of its source where the source stands, or adds the source
  at the end when it was not tracked; a sweep keeps the entries that are not stale, in
  their order. Hence, when \<open>A\<close> is active with priority \<open>a\<close> and a packet of another
  source \<open>B\<close> arrives with priority \<open>p\<close>: \<open>A\<close> stays active if \<open>p < a\<close>, or if \<open>p = a\<close>
  and \<open>B\<close> is new or stands after \<open>A\<close>; \<open>B\<close> becomes active if \<open>p > a\<close>, or if \<open>p = a\<close>
  and \<open>B\<close> stands before \<open>A\<close>. A packet of \<open>A\<close> itself with a priority of at least \<open>a\<close>
  keeps \<open>A\<close> active. A sweep at a time when \<open>A\<close> is not stale keeps \<open>A\<close> active.
\<close>

theorem active_source_first_highest:
  "electionInvariant initialSACNHandler \<and>
   (electionInvariant h \<longrightarrow>
      electionInvariant (fst (handlePacket packet now h)) \<and>
      electionInvariant (fst (cleanupStaleSources now h)) \<and>
      priorityTable (sources (fst (cleanupStaleSources now h)))
        = priorityTable (filter (\<lambda>x. \<not> isStale now (snd x)) (sources h)) \<and>
      (isValidUniverse (sp_universe packet) \<longrightarrow>
         priorityTable (sources (fst (handlePacket packet now h))) =
           (if getSourceKey packet \<in> fst ` set (sources h)
            then map (\<lambda>x. if fst x = getSourceKey packet
                           then (getSourceKey packet, packetPriority packet) else x)
                   (priorityTable (sources h))
            else priorityTable (sources h) @ [(getSourceKey packet, packetPriority packet)])) \<and>
      (activeSource h = None \<longrightarrow> sources h = []) \<and>
      (activeSource h = Some A \<and> sources h = pre @ (A, iA) # post \<longrightarrow>
         (\<forall>x \<in> set pre. src_priority (snd x) < src_priority iA) \<and>
         (\<forall>x \<in> set post. src_priority (snd x) \<le> src_priority iA) \<and>
         (\<not> isStale now iA \<longrightarrow> activeSource (fst (cleanupStaleSources now h)) = Some A) \<and>
         (isValidUniverse (sp_universe packet) \<longrightarrow>
            (getSourceKey packet \<noteq> A \<and> packetPriority packet < src_priority iA \<longrightarrow>
               activeSource (fst (handlePacket packet now h)) = Some A) \<and>
            (getSourceKey packet \<noteq> A \<and> packetPriority packet = src_priority iA \<and>
             getSourceKey packet \<notin> fst ` set pre \<longrightarrow>
               activeSource (fst (handlePacket packet now h)) = Some A) \<and>
            (getSourceKey packet \<noteq> A \<and> packetPriority packet = src_priority iA \<and>
             getSourceKey packet \<in> fst ` set pre \<longrightarrow>
               activeSource (fst (handlePacket packet now h)) = Some (getSourceKey packet)) \<and>
            (getSourceKey packet \<noteq> A \<and> packetPriority packet > src_priority iA \<longrightarrow>
               activeSource (fst (handlePacket packet now h)) = Some (getSourceKey packet)) \<and>
            (getSourceKey packet = A \<and> packetPriority packet \<ge> src_priority iA \<longrightarrow>
               activeSource (fst (handlePacket packet now h)) = Some A))))"
proof (intro conjI impI)
  show "electionInvariant initialSACNHandler"
    by (simp add: electionInvariant_def initialSACNHandler_def firstHighestKey_def priorityTable_def)
next
  assume "electionInvariant h"
  then show "electionInvariant (fst (handlePacket packet now h))"
    by (rule handlePacket_election)
next
  assume "electionInvariant h"
  then show "electionInvariant (fst (cleanupStaleSources now h))"
    by (rule cleanup_election)
next
  show "priorityTable (sources (fst (cleanupStaleSources now h)))
        = priorityTable (filter (\<lambda>x. \<not> isStale now (snd x)) (sources h))"
    by (rule cleanup_table)
next
  assume i: "electionInvariant h" and v: "isValidUniverse (sp_universe packet)"
  have d: "distinct (map fst (sources h))" using i by (simp add: electionInvariant_def)
  show "priorityTable (sources (fst (handlePacket packet now h))) =
           (if getSourceKey packet \<in> fst ` set (sources h)
            then map (\<lambda>x. if fst x = getSourceKey packet
                           then (getSourceKey packet, packetPriority packet) else x)
                   (priorityTable (sources h))
            else priorityTable (sources h) @ [(getSourceKey packet, packetPriority packet)])"
    by (rule handlePacket_table[OF d v])
next
  assume "electionInvariant h" and "activeSource h = None"
  then show "sources h = []" by (rule election_None)
next
  assume i: "electionInvariant h" and a: "activeSource h = Some A \<and> sources h = pre @ (A, iA) # post"
  from election_decomp[OF i] a show "\<forall>x \<in> set pre. src_priority (snd x) < src_priority iA" by blast
next
  assume i: "electionInvariant h" and a: "activeSource h = Some A \<and> sources h = pre @ (A, iA) # post"
  from election_decomp[OF i] a show "\<forall>x \<in> set post. src_priority (snd x) \<le> src_priority iA" by blast
next
  assume i: "electionInvariant h" and a: "activeSource h = Some A \<and> sources h = pre @ (A, iA) # post"
    and s: "\<not> isStale now iA"
  from cleanup_keeps_active[OF i] a s
  show "activeSource (fst (cleanupStaleSources now h)) = Some A" by blast
next
  assume i: "electionInvariant h" and a: "activeSource h = Some A \<and> sources h = pre @ (A, iA) # post"
    and v: "isValidUniverse (sp_universe packet)"
    and c: "getSourceKey packet \<noteq> A \<and> packetPriority packet < src_priority iA"
  from election_decomp[OF i] a
  have p: "\<forall>x \<in> set pre. src_priority (snd x) < src_priority iA"
    "\<forall>x \<in> set post. src_priority (snd x) \<le> src_priority iA" "A \<notin> fst ` set pre" by blast+
  have pt: "src_priority (trackedInfo packet now) = packetPriority packet" by (simp add: trackedInfo_def)
  have "snd (findHighest (mapSet (getSourceKey packet) (trackedInfo packet now) (pre @ (A, iA) # post))
          (- 1) None) = Some A"
  proof (cases "getSourceKey packet \<in> fst ` set pre")
    case True
    show ?thesis using c by (intro elect_earlier(1)[OF p(1,2) _ True]) (simp_all add: pt)
  next
    case False
    show ?thesis using c by (intro elect_stays_later[OF p(1,2) _ False]) (simp_all add: pt)
  qed
  then show "activeSource (fst (handlePacket packet now h)) = Some A"
    using handlePacket_valid_handler[OF v, of now h] a by simp
next
  assume i: "electionInvariant h" and a: "activeSource h = Some A \<and> sources h = pre @ (A, iA) # post"
    and v: "isValidUniverse (sp_universe packet)"
    and c: "getSourceKey packet \<noteq> A \<and> packetPriority packet = src_priority iA \<and>
             getSourceKey packet \<notin> fst ` set pre"
  from election_decomp[OF i] a
  have p: "\<forall>x \<in> set pre. src_priority (snd x) < src_priority iA"
    "\<forall>x \<in> set post. src_priority (snd x) \<le> src_priority iA" "A \<notin> fst ` set pre" by blast+
  have pt: "src_priority (trackedInfo packet now) = packetPriority packet" by (simp add: trackedInfo_def)
  have "snd (findHighest (mapSet (getSourceKey packet) (trackedInfo packet now) (pre @ (A, iA) # post))
          (- 1) None) = Some A"
    using c by (intro elect_stays_later[OF p(1,2)]) (simp_all add: pt)
  then show "activeSource (fst (handlePacket packet now h)) = Some A"
    using handlePacket_valid_handler[OF v, of now h] a by simp
next
  assume i: "electionInvariant h" and a: "activeSource h = Some A \<and> sources h = pre @ (A, iA) # post"
    and v: "isValidUniverse (sp_universe packet)"
    and c: "getSourceKey packet \<noteq> A \<and> packetPriority packet = src_priority iA \<and>
             getSourceKey packet \<in> fst ` set pre"
  from election_decomp[OF i] a
  have p: "\<forall>x \<in> set pre. src_priority (snd x) < src_priority iA"
    "\<forall>x \<in> set post. src_priority (snd x) \<le> src_priority iA" "A \<notin> fst ` set pre" by blast+
  have pt: "src_priority (trackedInfo packet now) = packetPriority packet" by (simp add: trackedInfo_def)
  have "snd (findHighest (mapSet (getSourceKey packet) (trackedInfo packet now) (pre @ (A, iA) # post))
          (- 1) None) = Some (getSourceKey packet)"
    using c by (intro elect_earlier(2)[OF p(1,2)]) (simp_all add: pt)
  then show "activeSource (fst (handlePacket packet now h)) = Some (getSourceKey packet)"
    using handlePacket_valid_handler[OF v, of now h] a by simp
next
  assume i: "electionInvariant h" and a: "activeSource h = Some A \<and> sources h = pre @ (A, iA) # post"
    and v: "isValidUniverse (sp_universe packet)"
    and c: "getSourceKey packet \<noteq> A \<and> packetPriority packet > src_priority iA"
  from election_decomp[OF i] a
  have p: "\<forall>x \<in> set pre. src_priority (snd x) < src_priority iA"
    "\<forall>x \<in> set post. src_priority (snd x) \<le> src_priority iA" "A \<notin> fst ` set pre" by blast+
  have d: "distinct (map fst (sources h))" using i by (simp add: electionInvariant_def)
  have pt: "src_priority (trackedInfo packet now) = packetPriority packet" by (simp add: trackedInfo_def)
  have mx: "\<forall>x \<in> set (sources h). src_priority (snd x) \<le> src_priority iA"
    using p(1,2) a by (auto simp: less_imp_le)
  have "\<forall>x \<in> set (sources h). fst x \<noteq> getSourceKey packet \<longrightarrow>
          src_priority (snd x) < src_priority (trackedInfo packet now)"
    using mx c unfolding pt by fastforce
  from elect_higher[OF d this]
  show "activeSource (fst (handlePacket packet now h)) = Some (getSourceKey packet)"
    using handlePacket_valid_handler[OF v, of now h] by simp
next
  assume i: "electionInvariant h" and a: "activeSource h = Some A \<and> sources h = pre @ (A, iA) # post"
    and v: "isValidUniverse (sp_universe packet)"
    and c: "getSourceKey packet = A \<and> packetPriority packet \<ge> src_priority iA"
  from election_decomp[OF i] a
  have p: "\<forall>x \<in> set pre. src_priority (snd x) < src_priority iA"
    "\<forall>x \<in> set post. src_priority (snd x) \<le> src_priority iA" "A \<notin> fst ` set pre" by blast+
  have pt: "src_priority (trackedInfo packet now) = packetPriority packet" by (simp add: trackedInfo_def)
  have "snd (findHighest (mapSet A (trackedInfo packet now) (pre @ (A, iA) # post))
          (- 1) None) = Some A"
    using c by (intro elect_stays_self[OF p(1,2,3)]) (simp add: pt)
  then show "activeSource (fst (handlePacket packet now h)) = Some A"
    using handlePacket_valid_handler[OF v, of now h] a c by simp
qed

theorem active_source_first_highest_witness:
  "electionInvariant handlerWithA \<and> activeSource handlerWithA = Some ''A'' \<and>
   activeSource (fst (handlePacket (examplePacket ''B'' 1 100) 10 handlerWithA)) = Some ''A'' \<and>
   activeSource (fst (handlePacket (examplePacket ''B'' 1 101) 10 handlerWithA)) = Some ''B''"
proof -
  have s: "sources handlerWithA = [] @ (''A'', \<lparr>src_sourceName = ''A'', src_sourceAddress = None,
              src_priority = 100, src_lastSeen = 0, src_isActive = True\<rparr>) # []"
    and a: "activeSource handlerWithA = Some ''A''"
    by (simp_all add: handlerWithA_def handlePacket_def updateSourceTracking_def Let_def
        examplePacket_def isValidUniverse_def initialSACNHandler_def getSourceKey_def
        orUnknown_def markActive_def)
  have e: "electionInvariant handlerWithA"
    using active_source_first_highest [of initialSACNHandler "examplePacket ''A'' 1 100" 0]
    by (simp add: handlerWithA_def)
  from active_source_first_highest [where h = handlerWithA and packet = "examplePacket ''B'' 1 100"
      and now = 10 and A = "''A''" and pre = "[]" and post = "[]"
      and iA = "\<lparr>src_sourceName = ''A'', src_sourceAddress = None,
              src_priority = 100, src_lastSeen = 0, src_isActive = True\<rparr>"] e s a
  have b: "activeSource (fst (handlePacket (examplePacket ''B'' 1 100) 10 handlerWithA)) = Some ''A''"
    by (simp add: ex_keyA ex_valid ex_priority)
  from active_source_first_highest [where h = handlerWithA and packet = "examplePacket ''B'' 1 101"
      and now = 10 and A = "''A''" and pre = "[]" and post = "[]"
      and iA = "\<lparr>src_sourceName = ''A'', src_sourceAddress = None,
              src_priority = 100, src_lastSeen = 0, src_isActive = True\<rparr>"] e s a
  have c: "activeSource (fst (handlePacket (examplePacket ''B'' 1 101) 10 handlerWithA)) = Some ''B''"
    by (simp add: ex_keyA ex_valid ex_priority)
  show ?thesis using e a b c by simp
qed

text \<open>
  C2 as stated fails: \<open>B\<close> is tracked first with priority 50, then \<open>A\<close> with priority 100
  becomes active; when \<open>B\<close> sends again with priority 100, equal to \<open>A\<close>'s, the active
  source flips to \<open>B\<close>, which stands first in the table.
\<close>

theorem active_source_tie_counterexample:
  "activeSource (fst (handlePacket (examplePacket ''A'' 1 100) 10
      (fst (handlePacket (examplePacket ''B'' 1 50) 0 initialSACNHandler)))) = Some ''A'' \<and>
   activeSource (fst (handlePacket (examplePacket ''B'' 1 100) 20
     (fst (handlePacket (examplePacket ''A'' 1 100) 10
       (fst (handlePacket (examplePacket ''B'' 1 50) 0 initialSACNHandler)))))) = Some ''B''"
  by (simp add: handlePacket_def updateSourceTracking_def Let_def examplePacket_def
        isValidUniverse_def initialSACNHandler_def getSourceKey_def orUnknown_def markActive_def)
section \<open>Recorder: buffered writes\<close>

lemma appended_refl: "bufferInvariant r \<Longrightarrow> appended r r []"
  by (simp add: appended_def)

lemma appended_trans:
  assumes "appended r r1 d1" and "appended r1 r2 d2"
  shows "appended r r2 (d1 @ d2)"
proof -
  from assms(1) obtain ws1 where w1: "rec_writes r1 = rec_writes r @ ws1" "\<forall>w \<in> set ws1. HEADER_SIZE \<le> fst w"
    by (auto simp: appended_def)
  from assms(2) obtain ws2 where w2: "rec_writes r2 = rec_writes r1 @ ws2" "\<forall>w \<in> set ws2. HEADER_SIZE \<le> fst w"
    by (auto simp: appended_def)
  have w: "rec_writes r2 = rec_writes r @ (ws1 @ ws2) \<and> (\<forall>w \<in> set (ws1 @ ws2). HEADER_SIZE \<le> fst w)"
    using w1 w2 by auto
  have e1: "r1 = r\<lparr>rec_file := rec_file r1, rec_writes := rec_writes r1,
            rec_writeBuffer := rec_writeBuffer r1, rec_writeOffset := rec_writeOffset r1,
            rec_bytesWritten := rec_bytesWritten r1\<rparr>"
    using assms(1) by (simp add: appended_def)
  have e2: "r2 = r1\<lparr>rec_file := rec_file r2, rec_writes := rec_writes r2,
            rec_writeBuffer := rec_writeBuffer r2, rec_writeOffset := rec_writeOffset r2,
            rec_bytesWritten := rec_bytesWritten r2\<rparr>"
    using assms(2) by (simp add: appended_def)
  have e: "r2 = r\<lparr>rec_file := rec_file r2, rec_writes := rec_writes r2,
            rec_writeBuffer := rec_writeBuffer r2, rec_writeOffset := rec_writeOffset r2,
            rec_bytesWritten := rec_bytesWritten r2\<rparr>"
    by (subst e2, subst e1) simp
  show ?thesis
    unfolding appended_def
    using assms w e by (auto simp: appended_def)
qed

lemma flushBuffer_appended:
  assumes "bufferInvariant r"
  shows "appended r (flushBuffer r) [] \<and> (rec_writeOffset (flushBuffer r) = 0)"
  using assms
  by (auto simp: flushBuffer_def appended_def bufferInvariant_def stream_def fsWrite_def HEADER_SIZE_def)

lemma appendByte_appended:
  assumes "bufferInvariant r"
  shows "appended r (appendByte v r) [v]"
proof -
  define r1 where "r1 = (if rec_writeOffset r \<ge> length (rec_writeBuffer r) - 1 then flushBuffer r else r)"
  have a1: "appended r r1 []" and o1: "rec_writeOffset r1 < WRITE_BUFFER_SIZE - 1"
    using assms flushBuffer_appended[OF assms]
    by (auto simp: r1_def appended_refl bufferInvariant_def WRITE_BUFFER_SIZE_def)
  have b1: "bufferInvariant r1" using a1 by (simp add: appended_def)
  have "appended r1 (r1\<lparr>rec_writeBuffer := (rec_writeBuffer r1)[rec_writeOffset r1 := v],
            rec_writeOffset := rec_writeOffset r1 + 1\<rparr>) [v]"
    using b1 o1
    by (simp add: appended_def bufferInvariant_def stream_def take_Suc_conv_app_nth)
  with a1 have "appended r (appendByte v r) ([] @ [v])"
    unfolding appendByte_def Let_def r1_def[symmetric] by (rule appended_trans)
  then show ?thesis by simp
qed

lemma writeBytes_length: "length (writeBytes buf bs off) = length buf"
  by (induction bs arbitrary: buf off) auto

lemma appendToBuffer_appended:
  assumes "bufferInvariant r"
  shows "appended r (appendToBuffer data r) data"
proof -
  define r1 where "r1 = (if rec_writeOffset r + length data \<ge> length (rec_writeBuffer r)
                then flushBuffer r else r)"
  have a1: "appended r r1 []"
    using assms flushBuffer_appended[OF assms] by (auto simp: r1_def appended_refl)
  have b1: "bufferInvariant r1" using a1 by (simp add: appended_def)
  have o1: "rec_writeOffset r1 + length data \<ge> WRITE_BUFFER_SIZE \<longrightarrow> rec_writeOffset r1 = 0"
    using assms flushBuffer_appended[OF assms] by (auto simp: r1_def bufferInvariant_def)
  have "appended r1 (if length data \<ge> length (rec_writeBuffer r1)
         then (if rec_fileHandle r1
               then (fsWrite data r1)\<lparr>rec_bytesWritten := rec_bytesWritten r1 + length data\<rparr>
               else r1)
         else r1\<lparr>rec_writeBuffer := writeBytes (rec_writeBuffer r1) data (rec_writeOffset r1),
                 rec_writeOffset := rec_writeOffset r1 + length data\<rparr>) data"
  proof (cases "length data \<ge> length (rec_writeBuffer r1)")
    case True
    then have "rec_writeOffset r1 = 0" using o1 b1 by (simp add: bufferInvariant_def)
    then show ?thesis
      using True b1
      by (simp add: appended_def bufferInvariant_def stream_def fsWrite_def HEADER_SIZE_def)
  next
    case False
    then have fit: "rec_writeOffset r1 + length data < WRITE_BUFFER_SIZE"
      using o1 b1 by (auto simp: bufferInvariant_def)
    then have "rec_writeOffset r1 + length data \<le> length (rec_writeBuffer r1)"
      using b1 by (simp add: bufferInvariant_def)
    from writeBytes_append[OF this]
    have "take (rec_writeOffset r1 + length data) (writeBytes (rec_writeBuffer r1) data (rec_writeOffset r1))
            = take (rec_writeOffset r1) (rec_writeBuffer r1) @ data"
      using b1 fit by (simp add: bufferInvariant_def)
    then show ?thesis
      using False b1 fit
      by (simp add: appended_def bufferInvariant_def stream_def writeBytes_length)
  qed
  with a1 have "appended r (appendToBuffer data r) ([] @ data)"
    unfolding appendToBuffer_def Let_def r1_def[symmetric] by (rule appended_trans)
  then show ?thesis by simp
qed

lemma appendUint16_appended:
  assumes "bufferInvariant r" and "v \<le> 65535"
  shows "\<exists>r'. appendUint16 v r = Inr r' \<and> appended r r' (u16le v)"
proof -
  define r1 where "r1 = (if rec_writeOffset r \<ge> length (rec_writeBuffer r) - 2 then flushBuffer r else r)"
  have a1: "appended r r1 []" and o1: "rec_writeOffset r1 + 2 < WRITE_BUFFER_SIZE"
    using assms flushBuffer_appended[OF assms(1)]
    by (auto simp: r1_def appended_refl bufferInvariant_def WRITE_BUFFER_SIZE_def)
  have b1: "bufferInvariant r1" using a1 by (simp add: appended_def)
  define r2 where "r2 = r1\<lparr>rec_writeBuffer := (rec_writeBuffer r1)[rec_writeOffset r1 := word_of_int (int v mod 256),
                   rec_writeOffset r1 + 1 := word_of_int (int v div 256)],
                 rec_writeOffset := rec_writeOffset r1 + 2\<rparr>"
  have w: "appendUint16 v r = Inr r2"
    using assms(2) b1 o1
    by (simp add: appendUint16_def Let_def r1_def[symmetric] writeUInt16LE_def bindE_def r2_def
        bufferInvariant_def)
  have t: "take (rec_writeOffset r1 + 2) ((rec_writeBuffer r1)[rec_writeOffset r1 := a, rec_writeOffset r1 + 1 := b])
            = take (rec_writeOffset r1) (rec_writeBuffer r1) @ [a, b]" for a b
    using b1 o1
    by (simp add: bufferInvariant_def take_Suc_conv_app_nth
        numeral_2_eq_2 del: One_nat_def) (simp add: nth_list_update)
  have "appended r1 r2 (u16le v)"
    using b1 o1 t by (simp add: appended_def bufferInvariant_def stream_def r2_def u16le_def)
  with a1 have "appended r r2 ([] @ u16le v)" by (rule appended_trans)
  then show ?thesis using w by simp
qed


lemma writeSnapshotFrame_appended:
  assumes "bufferInvariant r"
  shows "appended r (writeSnapshotFrame channels deltaTime r) (snapshotFrameBytes deltaTime channels)"
proof -
  have 1: "appended r (appendToBuffer (encodeVarint deltaTime) r) (encodeVarint deltaTime)"
    by (rule appendToBuffer_appended[OF assms])
  then have b1: "bufferInvariant (appendToBuffer (encodeVarint deltaTime) r)" by (simp add: appended_def)
  have 2: "appended (appendToBuffer (encodeVarint deltaTime) r)
             (appendByte (word_of_nat FrameType_SNAPSHOT) (appendToBuffer (encodeVarint deltaTime) r))
             [word_of_nat FrameType_SNAPSHOT]"
    by (rule appendByte_appended[OF b1])
  then have b2: "bufferInvariant (appendByte (word_of_nat FrameType_SNAPSHOT) (appendToBuffer (encodeVarint deltaTime) r))"
    by (simp add: appended_def)
  from appended_trans[OF appended_trans[OF 1 2] appendToBuffer_appended[OF b2]]
  show ?thesis by (simp add: writeSnapshotFrame_def snapshotFrameBytes_def)
qed

lemma appendChanges_appended:
  assumes "bufferInvariant r" and "\<forall>c \<in> set changes. fst c \<le> 65535"
  shows "\<exists>r'. appendChanges changes r = Inr r' \<and> appended r r' (changeBytes changes)"
  using assms
proof (induction changes arbitrary: r)
  case Nil
  then show ?case by (simp add: changeBytes_def appended_refl)
next
  case (Cons c changes)
  obtain channel v where c: "c = (channel, v)" by (cases c)
  from Cons.prems c have "channel \<le> 65535" by simp
  from appendUint16_appended[OF Cons.prems(1) this]
  obtain r1 where r1: "appendUint16 channel r = Inr r1" "appended r r1 (u16le channel)" by blast
  then have b1: "bufferInvariant r1" by (simp add: appended_def)
  have 2: "appended r1 (appendByte v r1) [v]" by (rule appendByte_appended[OF b1])
  then have b2: "bufferInvariant (appendByte v r1)" by (simp add: appended_def)
  from Cons.IH[OF b2] Cons.prems(2)
  obtain r' where r': "appendChanges changes (appendByte v r1) = Inr r'"
      "appended (appendByte v r1) r' (changeBytes changes)" by auto
  from appended_trans[OF appended_trans[OF r1(2) 2] r'(2)]
  have "appended r r' (changeBytes (c # changes))" by (simp add: changeBytes_def c)
  then show ?case using r1(1) r'(1) by (simp add: c bindE_def)
qed

lemma writeDeltaFrame_appended:
  assumes "bufferInvariant r" and "\<forall>c \<in> set changes. fst c \<le> 65535" and "length changes \<le> 65535"
  shows "\<exists>r'. writeDeltaFrame changes deltaTime r = Inr r' \<and>
               appended r r' (deltaFrameBytes deltaTime changes)"
proof -
  define r1 where "r1 = appendToBuffer (encodeVarint deltaTime) r"
  have 1: "appended r r1 (encodeVarint deltaTime)"
    unfolding r1_def by (rule appendToBuffer_appended[OF assms(1)])
  then have b1: "bufferInvariant r1" by (simp add: appended_def)
  have "\<exists>r2. (if length changes < FrameType_SNAPSHOT
                then Inr (appendByte (word_of_nat (length changes)) r1)
                else appendUint16 (length changes) (appendByte (word_of_nat FrameType_EXTENDED) r1)) = Inr r2
          \<and> appended r1 r2 (changeCountBytes (length changes))"
  proof (cases "length changes < FrameType_SNAPSHOT")
    case True
    then show ?thesis using appendByte_appended[OF b1] by (simp add: changeCountBytes_def)
  next
    case False
    have e: "appended r1 (appendByte (word_of_nat FrameType_EXTENDED) r1) [word_of_nat FrameType_EXTENDED]"
      by (rule appendByte_appended[OF b1])
    then have be: "bufferInvariant (appendByte (word_of_nat FrameType_EXTENDED) r1)" by (simp add: appended_def)
    from appendUint16_appended[OF be assms(3)]
    obtain r2 where r2: "appendUint16 (length changes) (appendByte (word_of_nat FrameType_EXTENDED) r1) = Inr r2"
        "appended (appendByte (word_of_nat FrameType_EXTENDED) r1) r2 (u16le (length changes))" by blast
    from appended_trans[OF e r2(2)] r2(1) False show ?thesis by (simp add: changeCountBytes_def)
  qed
  then obtain r2 where r2: "(if length changes < FrameType_SNAPSHOT
                then Inr (appendByte (word_of_nat (length changes)) r1)
                else appendUint16 (length changes) (appendByte (word_of_nat FrameType_EXTENDED) r1)) = Inr r2"
      "appended r1 r2 (changeCountBytes (length changes))" by blast
  then have b2: "bufferInvariant r2" by (simp add: appended_def)
  from appendChanges_appended[OF b2 assms(2)]
  obtain r' where r': "appendChanges changes r2 = Inr r'" "appended r2 r' (changeBytes changes)" by blast
  from appended_trans[OF appended_trans[OF 1 r2(2)] r'(2)]
  have "appended r r' (deltaFrameBytes deltaTime changes)" by (simp add: deltaFrameBytes_def)
  then show ?thesis
    using r2(1) r'(1) by (simp add: writeDeltaFrame_def Let_def r1_def[symmetric] bindE_def)
qed

lemma computeChanges_bounds:
  "(\<forall>c \<in> set (computeChanges channels prev). fst c < TOTAL_CHANNELS) \<and>
   length (computeChanges channels prev) \<le> TOTAL_CHANNELS"
proof -
  have "length (filter (\<lambda>i. channelOr0 channels i \<noteq> channelOr0 prev i) [0..<TOTAL_CHANNELS])
          \<le> length [0..<TOTAL_CHANNELS]"
    by (rule length_filter_le)
  then show ?thesis by (auto simp: computeChanges_def)
qed

lemma computeChanges_same: "computeChanges channels channels = []"
  by (simp add: computeChanges_def)

lemma appended_meta:
  assumes "appended r r' d"
  shows "rec_state r' = rec_state r" "rec_previousChannels r' = rec_previousChannels r"
    "rec_frameCount r' = rec_frameCount r" "rec_lastFrameTime r' = rec_lastFrameTime r"
    "rec_lastSnapshotTime r' = rec_lastSnapshotTime r" "rec_startTime r' = rec_startTime r"
    "rec_universe r' = rec_universe r" "rec_protocol r' = rec_protocol r"
    "rec_fileHandle r' = rec_fileHandle r"
proof -
  from assms have e: "r' = r\<lparr>rec_file := rec_file r', rec_writes := rec_writes r',
            rec_writeBuffer := rec_writeBuffer r', rec_writeOffset := rec_writeOffset r',
            rec_bytesWritten := rec_bytesWritten r'\<rparr>" by (simp add: appended_def)
  show "rec_state r' = rec_state r" by (subst e) simp
  show "rec_previousChannels r' = rec_previousChannels r" by (subst e) simp
  show "rec_frameCount r' = rec_frameCount r" by (subst e) simp
  show "rec_lastFrameTime r' = rec_lastFrameTime r" by (subst e) simp
  show "rec_lastSnapshotTime r' = rec_lastSnapshotTime r" by (subst e) simp
  show "rec_startTime r' = rec_startTime r" by (subst e) simp
  show "rec_universe r' = rec_universe r" by (subst e) simp
  show "rec_protocol r' = rec_protocol r" by (subst e) simp
  show "rec_fileHandle r' = rec_fileHandle r" by (subst e) simp
qed

text \<open>What one \<open>recordFrame\<close> does, by cases.\<close>

lemma recordFrame_snapshot:
  assumes "rec_state r = RecRecording" and "bufferInvariant r" and "needsSnapshot now r"
    and "length channels = TOTAL_CHANNELS" and "length (rec_previousChannels r) = TOTAL_CHANNELS"
  shows "\<exists>r1. appended r r1 (snapshotFrameBytes (frameDeltaTime now r) channels) \<and>
           recordFrame now channels r
             = Inr (r1\<lparr>rec_lastSnapshotTime := now, rec_previousChannels := channels,
                       rec_lastFrameTime := now, rec_frameCount := rec_frameCount r + 1\<rparr>)"
proof -
  let ?r1 = "writeSnapshotFrame channels (frameDeltaTime now r) r"
  have a: "appended r ?r1 (snapshotFrameBytes (frameDeltaTime now r) channels)"
    by (rule writeSnapshotFrame_appended[OF assms(2)])
  have "recordFrame now channels r
             = Inr (?r1\<lparr>rec_lastSnapshotTime := now, rec_previousChannels := channels,
                       rec_lastFrameTime := now, rec_frameCount := rec_frameCount r + 1\<rparr>)"
    using assms appended_meta[OF a]
    by (simp add: recordFrame_def Let_def typedSet_def bindE_def)
  with a show ?thesis by blast
qed

lemma recordFrame_delta:
  assumes "rec_state r = RecRecording" and "bufferInvariant r" and "\<not> needsSnapshot now r"
    and "computeChanges channels (rec_previousChannels r) \<noteq> []"
    and "length channels = TOTAL_CHANNELS" and "length (rec_previousChannels r) = TOTAL_CHANNELS"
  shows "\<exists>r1. appended r r1 (deltaFrameBytes (frameDeltaTime now r)
                                (computeChanges channels (rec_previousChannels r))) \<and>
           recordFrame now channels r
             = Inr (r1\<lparr>rec_previousChannels := channels,
                       rec_lastFrameTime := now, rec_frameCount := rec_frameCount r + 1\<rparr>)"
proof -
  let ?changes = "computeChanges channels (rec_previousChannels r)"
  have b: "\<forall>c \<in> set ?changes. fst c \<le> 65535" "length ?changes \<le> 65535"
    using computeChanges_bounds[of channels "rec_previousChannels r"]
    by (auto simp: TOTAL_CHANNELS_def)
  from writeDeltaFrame_appended[OF assms(2) b, of "frameDeltaTime now r"]
  obtain r1 where r1: "writeDeltaFrame ?changes (frameDeltaTime now r) r = Inr r1"
      "appended r r1 (deltaFrameBytes (frameDeltaTime now r) ?changes)" by blast
  have "recordFrame now channels r
             = Inr (r1\<lparr>rec_previousChannels := channels,
                       rec_lastFrameTime := now, rec_frameCount := rec_frameCount r + 1\<rparr>)"
    using assms r1(1) appended_meta[OF r1(2)]
    by (simp add: recordFrame_def Let_def typedSet_def bindE_def)
  with r1(2) show ?thesis by blast
qed

lemma recordFrame_still:
  assumes "rec_state r = RecRecording" and "\<not> needsSnapshot now r"
    and "computeChanges channels (rec_previousChannels r) = []"
  shows "recordFrame now channels r = Inr r"
  using assms by (simp add: recordFrame_def Let_def)

section \<open>Recorder: header, start and stop, claims\<close>

lemma upt8: "[0..<8] = [0, 1, 2, 3, 4, 5, 6, 7]"
  by (simp add: upt_rec)

lemma replicate32: "replicate 32 (0::byte) = [0,0,0,0,0,0,0,0,0,0,0,0,0,0,0,0,0,0,0,0,0,0,0,0,0,0,0,0,0,0,0,0]"
  by (simp add: numeral_eq_Suc)

lemma replicate7: "replicate 7 (0::byte) = [0,0,0,0,0,0,0]"
  by (simp add: numeral_eq_Suc)

lemma createHeader_bytes:
  assumes "0 \<le> rec_universe r" and "rec_universe r \<le> 65535"
    and "- (2 ^ 63) \<le> rec_startTime r" and "rec_startTime r < 2 ^ 63"
    and "0 \<le> duration" and "duration \<le> 4294967295" and "rec_frameCount r \<le> 4294967295"
  shows "createHeader duration r
           = Inr (headerBytes (rec_protocol r) (rec_universe r) (rec_startTime r) duration (rec_frameCount r))"
  using assms
  by (simp add: createHeader_def bindE_def HEADER_SIZE_def DMXREC_MAGIC_def DMXREC_VERSION_def
      HAS_SNAPSHOTS_def writeUInt8_def writeUInt16LE_def writeBigInt64LE_def writeUInt32LE_def
      headerBytes_def u32le_def upt8 replicate32 replicate7)

lemma length_headerBytes: "length (headerBytes p u s d n) = 32"
  by (simp add: headerBytes_def DMXREC_MAGIC_def u32le_def)


lemma startRecording_ok:
  assumes "rec_state r \<noteq> RecRecording" and "0 \<le> universe" and "universe \<le> 65535"
    and "- (2 ^ 63) \<le> rec_startTime r" and "rec_startTime r < 2 ^ 63"
    and "rec_frameCount r \<le> 4294967295"
  shows "startRecording protocol universe now r
           = Inr (r\<lparr>rec_protocol := protocol, rec_universe := universe, rec_fileHandle := True,
                    rec_file := headerBytes protocol universe (rec_startTime r) 0 (rec_frameCount r),
                    rec_writes := [(0, headerBytes protocol universe (rec_startTime r) 0 (rec_frameCount r))],
                    rec_bytesWritten := HEADER_SIZE,
                    rec_previousChannels := replicate (length (rec_previousChannels r)) 0,
                    rec_startTime := now, rec_lastFrameTime := now, rec_lastSnapshotTime := now,
                    rec_frameCount := 0, rec_writeOffset := 0, rec_state := RecRecording\<rparr>)"
proof -
  have "createHeader 0 (r\<lparr>rec_protocol := protocol, rec_universe := universe,
                          rec_fileHandle := True, rec_file := [], rec_writes := []\<rparr>)
          = Inr (headerBytes protocol universe (rec_startTime r) 0 (rec_frameCount r))"
    using assms by (subst createHeader_bytes) simp_all
  then show ?thesis
    using assms(1) by (simp add: startRecording_def Let_def bindE_def fsWrite_def)
qed

lemma stopRecording_ok:
  assumes "rec_state r = RecRecording" and "bufferInvariant r"
    and "0 \<le> rec_universe r" and "rec_universe r \<le> 65535"
    and "- (2 ^ 63) \<le> rec_startTime r" and "rec_startTime r < 2 ^ 63"
    and "rec_startTime r \<le> now" and "now - rec_startTime r \<le> 4294967295"
    and "rec_frameCount r \<le> 4294967295"
  shows "\<exists>r' ws. stopRecording now r = Inr (r', now - rec_startTime r) \<and>
           rec_file r' = headerBytes (rec_protocol r) (rec_universe r) (rec_startTime r)
                           (now - rec_startTime r) (rec_frameCount r) @ stream r \<and>
           rec_writes r' = rec_writes r @ ws @
              [(0, headerBytes (rec_protocol r) (rec_universe r) (rec_startTime r)
                     (now - rec_startTime r) (rec_frameCount r))] \<and>
           (\<forall>w \<in> set ws. HEADER_SIZE \<le> fst w) \<and>
           rec_state r' = RecIdle \<and> rec_frameCount r' = rec_frameCount r \<and>
           rec_startTime r' = rec_startTime r \<and> \<not> rec_fileHandle r' \<and>
           rec_writeBuffer r' = rec_writeBuffer (flushBuffer r) \<and>
           rec_previousChannels r' = rec_previousChannels r"
proof -
  let ?hdr = "headerBytes (rec_protocol r) (rec_universe r) (rec_startTime r)
                     (now - rec_startTime r) (rec_frameCount r)"
  from flushBuffer_appended[OF assms(2)]
  have a: "appended r (flushBuffer r) []" and o: "rec_writeOffset (flushBuffer r) = 0" by blast+
  note m = appended_meta[OF a]
  have b: "bufferInvariant (flushBuffer r)" using a by (simp add: appended_def)
  have st: "drop HEADER_SIZE (rec_file (flushBuffer r)) = stream r"
    using a o by (simp add: appended_def stream_def)
  from a obtain ws where ws: "rec_writes (flushBuffer r) = rec_writes r @ ws"
      "\<forall>w \<in> set ws. HEADER_SIZE \<le> fst w" by (auto simp: appended_def)
  have h: "createHeader (now - rec_startTime r) (flushBuffer r) = Inr ?hdr"
    using assms m by (subst createHeader_bytes) simp_all
  have "stopRecording now r
          = Inr ((fsWriteAt 0 (take HEADER_SIZE ?hdr) (flushBuffer r))
                   \<lparr>rec_fileHandle := False, rec_state := RecIdle\<rparr>, now - rec_startTime r)"
    using assms(1) b m h by (simp add: stopRecording_def Let_def bindE_def bufferInvariant_def)
  then show ?thesis
    using st ws m
    by (simp add: fsWriteAt_def length_headerBytes HEADER_SIZE_def)
qed

lemma encodeVarint_small: "0 \<le> v \<Longrightarrow> v \<le> 127 \<Longrightarrow> encodeVarint v = [word_of_int v]"
  by (simp add: encodeVarint.simps)

lemma computeChanges_empty_iff:
  assumes "length channels = TOTAL_CHANNELS" and "length prev = TOTAL_CHANNELS"
  shows "computeChanges channels prev = [] \<longleftrightarrow> channels = prev"
proof
  assume e: "computeChanges channels prev = []"
  show "channels = prev"
  proof (rule nth_equalityI)
    show "length channels = length prev" using assms by simp
  next
    fix i assume i: "i < length channels"
    then have "i \<in> set [0..<TOTAL_CHANNELS]" using assms by simp
    with e have "channelOr0 channels i = channelOr0 prev i"
      by (auto simp: computeChanges_def filter_empty_conv)
    then show "channels ! i = prev ! i" using i assms by (simp add: channelOr0_def byteAt_def)
  qed
next
  assume "channels = prev"
  then show "computeChanges channels prev = []" by (simp add: computeChanges_same)
qed

text \<open>
  C6 (as the code has it). A \<open>recordFrame\<close> call while recording that is not the first
  frame of the recording, does not hit the snapshot threshold (less than 5000 ms since the
  last snapshot) and whose channel array equals the previous-channel cache returns the
  recorder as it was: nothing is written or buffered, and the cache, the last-frame
  timestamp and the frame count are unchanged. Consequently the frame written by the next
  call that writes one starts with the varint of the full gap since the last written frame.
\<close>

theorem recordFrame_still_frame:
  assumes "rec_state r = RecRecording" and "\<not> isFirstFrame r"
    and "now - rec_lastSnapshotTime r < SNAPSHOT_INTERVAL"
    and "channels = rec_previousChannels r"
  shows "recordFrame now channels r = Inr r \<and>
         (\<forall>now' channels'.
            bufferInvariant r \<and> length channels' = TOTAL_CHANNELS \<and>
            length (rec_previousChannels r) = TOTAL_CHANNELS \<and>
            (needsSnapshot now' r \<or> channels' \<noteq> rec_previousChannels r) \<longrightarrow>
            (\<exists>r' body. bindE (recordFrame now channels r) (recordFrame now' channels') = Inr r' \<and>
                 stream r' = stream r @ encodeVarint (now' - rec_lastFrameTime r) @ body \<and>
                 rec_frameCount r' = rec_frameCount r + 1))"
proof (intro conjI allI impI)
  have ns: "\<not> needsSnapshot now r" using assms by (simp add: needsSnapshot_def)
  show still: "recordFrame now channels r = Inr r"
    using assms(1) ns assms(4) by (simp add: recordFrame_still computeChanges_same)
  fix now' channels'
  assume h: "bufferInvariant r \<and> length channels' = TOTAL_CHANNELS \<and>
            length (rec_previousChannels r) = TOTAL_CHANNELS \<and>
            (needsSnapshot now' r \<or> channels' \<noteq> rec_previousChannels r)"
  have dt: "frameDeltaTime now' r = now' - rec_lastFrameTime r"
    using assms(2) by (simp add: frameDeltaTime_def)
  show "\<exists>r' body. bindE (recordFrame now channels r) (recordFrame now' channels') = Inr r' \<and>
                 stream r' = stream r @ encodeVarint (now' - rec_lastFrameTime r) @ body \<and>
                 rec_frameCount r' = rec_frameCount r + 1"
  proof (cases "needsSnapshot now' r")
    case True
    from recordFrame_snapshot[OF assms(1) _ True, of channels'] h
    obtain r1 where r1: "appended r r1 (snapshotFrameBytes (frameDeltaTime now' r) channels')"
        "recordFrame now' channels' r
             = Inr (r1\<lparr>rec_lastSnapshotTime := now', rec_previousChannels := channels',
                       rec_lastFrameTime := now', rec_frameCount := rec_frameCount r + 1\<rparr>)"
      by blast
    have "stream (r1\<lparr>rec_lastSnapshotTime := now', rec_previousChannels := channels',
                       rec_lastFrameTime := now', rec_frameCount := rec_frameCount r + 1\<rparr>)
            = stream r @ encodeVarint (now' - rec_lastFrameTime r) @
                ([word_of_nat FrameType_SNAPSHOT] @ take TOTAL_CHANNELS channels')"
      using r1(1) by (simp add: appended_def stream_def snapshotFrameBytes_def dt)
    then show ?thesis using r1(2) by (simp add: still bindE_def)
  next
    case False
    with h have "computeChanges channels' (rec_previousChannels r) \<noteq> []"
      by (simp add: computeChanges_empty_iff)
    from recordFrame_delta[OF assms(1) _ False this] h
    obtain r1 where r1: "appended r r1 (deltaFrameBytes (frameDeltaTime now' r)
                                (computeChanges channels' (rec_previousChannels r)))"
        "recordFrame now' channels' r
             = Inr (r1\<lparr>rec_previousChannels := channels',
                       rec_lastFrameTime := now', rec_frameCount := rec_frameCount r + 1\<rparr>)"
      by blast
    have "stream (r1\<lparr>rec_previousChannels := channels',
                       rec_lastFrameTime := now', rec_frameCount := rec_frameCount r + 1\<rparr>)
            = stream r @ encodeVarint (now' - rec_lastFrameTime r) @
                (changeCountBytes (length (computeChanges channels' (rec_previousChannels r))) @
                 changeBytes (computeChanges channels' (rec_previousChannels r)))"
      using r1(1) by (simp add: appended_def stream_def deltaFrameBytes_def dt)
    then show ?thesis using r1(2) by (simp add: still bindE_def)
  qed
qed


lemma start_fresh:
  "startRecording Sacn 1 1000 newRecorder
     = Inr (newRecorder\<lparr>rec_protocol := Sacn, rec_universe := 1, rec_fileHandle := True,
                       rec_file := headerBytes Sacn 1 0 0 0,
                       rec_writes := [(0, headerBytes Sacn 1 0 0 0)],
                       rec_bytesWritten := HEADER_SIZE,
                       rec_previousChannels := replicate 512 0,
                       rec_startTime := 1000, rec_lastFrameTime := 1000, rec_lastSnapshotTime := 1000,
                       rec_frameCount := 0, rec_writeOffset := 0, rec_state := RecRecording\<rparr>)"
  by (subst startRecording_ok) (simp_all add: newRecorder_def TOTAL_CHANNELS_def)

lemma started_facts:
  assumes "startRecording Sacn 1 1000 newRecorder = Inr r1"
  shows "rec_state r1 = RecRecording" "bufferInvariant r1" "needsSnapshot now r1"
    "rec_previousChannels r1 = replicate 512 0" "rec_frameCount r1 = 0" "stream r1 = []"
    "rec_lastSnapshotTime r1 = 1000" "rec_startTime r1 = 1000" "rec_universe r1 = 1"
    "rec_protocol r1 = Sacn" "frameDeltaTime now r1 = 0"
  using assms unfolding start_fresh
  by (auto simp: bufferInvariant_def newRecorder_def length_headerBytes HEADER_SIZE_def
      WRITE_BUFFER_SIZE_def needsSnapshot_def isFirstFrame_def stream_def frameDeltaTime_def)

lemma first_frame:
  assumes "startRecording Sacn 1 1000 newRecorder = Inr r1" and "length channels = 512"
  shows "\<exists>r2. recordFrame now channels r1 = Inr r2 \<and> rec_state r2 = RecRecording \<and>
           bufferInvariant r2 \<and> rec_frameCount r2 = 1 \<and> rec_previousChannels r2 = channels \<and>
           rec_lastSnapshotTime r2 = now \<and> rec_lastFrameTime r2 = now \<and>
           stream r2 = snapshotFrameBytes 0 channels \<and> rec_startTime r2 = 1000 \<and>
           rec_universe r2 = 1 \<and> rec_protocol r2 = Sacn"
proof -
  note f = started_facts[OF assms(1)]
  from recordFrame_snapshot[OF f(1) f(2) f(3), of channels now] assms(2) f(4)
  obtain r1' where r: "appended r1 r1' (snapshotFrameBytes (frameDeltaTime now r1) channels)"
      "recordFrame now channels r1
         = Inr (r1'\<lparr>rec_lastSnapshotTime := now, rec_previousChannels := channels,
                    rec_lastFrameTime := now, rec_frameCount := rec_frameCount r1 + 1\<rparr>)"
    by (auto simp: TOTAL_CHANNELS_def)
  note m = appended_meta[OF r(1)]
  show ?thesis
    using r m f by (simp add: appended_def bufferInvariant_def stream_def)
qed

theorem recordFrame_still_frame_witness:
  "\<exists>r1 r2 r3 body. startRecording Sacn 1 1000 newRecorder = Inr r1 \<and>
      recordFrame 1010 (replicate 512 7) r1 = Inr r2 \<and>
      recordFrame 1200 (replicate 512 7) r2 = Inr r2 \<and>
      bindE (recordFrame 1200 (replicate 512 7) r2) (recordFrame 1500 (replicate 512 8)) = Inr r3 \<and>
      stream r3 = stream r2 @ encodeVarint 490 @ body"
proof -
  obtain r1 where r1: "startRecording Sacn 1 1000 newRecorder = Inr r1" by (simp add: start_fresh)
  from first_frame[OF r1, of "replicate 512 7" 1010]
  obtain r2 where r2: "recordFrame 1010 (replicate 512 7) r1 = Inr r2" "rec_state r2 = RecRecording"
      "bufferInvariant r2" "rec_frameCount r2 = 1" "rec_previousChannels r2 = replicate 512 7"
      "rec_lastSnapshotTime r2 = 1010" "rec_lastFrameTime r2 = 1010"
    by auto
  have ne: "replicate 512 (8::byte) \<noteq> replicate 512 7"
    by (simp add: replicate_eq_replicate)
  have hyp: "rec_state r2 = RecRecording" "\<not> isFirstFrame r2"
      "1200 - rec_lastSnapshotTime r2 < SNAPSHOT_INTERVAL" "replicate 512 7 = rec_previousChannels r2"
    by (simp_all add: r2 isFirstFrame_def SNAPSHOT_INTERVAL_def)
  note T = recordFrame_still_frame[OF hyp]
  have s: "recordFrame 1200 (replicate 512 7) r2 = Inr r2" by (rule T[THEN conjunct1])
  have pre: "bufferInvariant r2 \<and> length (replicate 512 (8::byte)) = TOTAL_CHANNELS \<and>
      length (rec_previousChannels r2) = TOTAL_CHANNELS \<and>
      (needsSnapshot 1500 r2 \<or> replicate 512 8 \<noteq> rec_previousChannels r2)"
    using r2 ne by (simp add: TOTAL_CHANNELS_def)
  from T[THEN conjunct2, rule_format, OF pre]
  obtain r3 body where r3:
      "bindE (recordFrame 1200 (replicate 512 7) r2) (recordFrame 1500 (replicate 512 8)) = Inr r3"
      "stream r3 = stream r2 @ encodeVarint (1500 - rec_lastFrameTime r2) @ body"
    by blast
  have "stream r3 = stream r2 @ encodeVarint 490 @ body" using r3(2) by (simp add: r2)
  with r1 r2(1) s r3(1) show ?thesis by blast
qed

text \<open>
  C6 as stated fails on the first frame: right after \<open>startRecording\<close> the cache is all
  zero, and an all-zero frame 10 ms later (no snapshot threshold reached) still writes a
  514-byte snapshot frame and advances the frame count and the last-frame timestamp.
\<close>

theorem recordFrame_first_frame_counterexample:
  "map_sum id (\<lambda>r. (rec_state r, rec_previousChannels r = replicate 512 0, rec_lastSnapshotTime r,
                     rec_frameCount r, stream r))
     (startRecording Sacn 1 1000 newRecorder) = Inr (RecRecording, True, 1000, 0, []) \<and>
   map_sum id (\<lambda>r. (rec_frameCount r, length (stream r), rec_lastFrameTime r))
     (bindE (startRecording Sacn 1 1000 newRecorder) (recordFrame 1010 (replicate 512 0)))
     = Inr (1, 514, 1010)"
proof -
  obtain r1 where r1: "startRecording Sacn 1 1000 newRecorder = Inr r1" by (simp add: start_fresh)
  note f = started_facts[OF r1]
  from first_frame[OF r1, of "replicate 512 0" 1010]
  obtain r2 where r2: "recordFrame 1010 (replicate 512 0) r1 = Inr r2" "rec_frameCount r2 = 1"
      "rec_lastFrameTime r2 = 1010" "stream r2 = snapshotFrameBytes 0 (replicate 512 0)"
    by auto
  have "length (snapshotFrameBytes 0 (replicate 512 0)) = 514"
    by (simp add: snapshotFrameBytes_def encodeVarint_small TOTAL_CHANNELS_def)
  then show ?thesis using r1 f r2 by (simp add: bindE_def)
qed

text \<open>
  C7 fails in the code for a second recording: \<open>startRecording\<close> creates the provisional
  header before it resets the frame count, so after a first recording of one frame the
  provisional header of the second recording (the only write so far, 32 bytes at offset 0,
  duration 0) carries \<open>frame_count = 1\<close>.
\<close>

theorem provisional_header_stale_frame_count:
  "map_sum id (\<lambda>r. map (\<lambda>(pos, d). (pos, length d, readUInt32LE d 17, readUInt32LE d 21)) (rec_writes r))
     secondRecordingStart = Inr [(0, 32, Inr 0, Inr 1)]"
proof -
  obtain r1 where r1: "startRecording Sacn 1 1000 newRecorder = Inr r1" by (simp add: start_fresh)
  from first_frame[OF r1, of "replicate 512 7" 1010]
  obtain r2 where r2: "recordFrame 1010 (replicate 512 7) r1 = Inr r2" "rec_state r2 = RecRecording"
      "bufferInvariant r2" "rec_frameCount r2 = 1" "rec_startTime r2 = 1000" "rec_universe r2 = 1"
      "rec_protocol r2 = Sacn"
    by auto
  from stopRecording_ok[OF r2(2) r2(3), of 2000] r2
  obtain r3 where r3: "stopRecording 2000 r2 = Inr (r3, 1000)" "rec_state r3 = RecIdle"
      "rec_frameCount r3 = 1" "rec_startTime r3 = 1000"
    by auto
  have r4: "startRecording Sacn 1 3000 r3
              = Inr (r3\<lparr>rec_protocol := Sacn, rec_universe := 1, rec_fileHandle := True,
                    rec_file := headerBytes Sacn 1 1000 0 1,
                    rec_writes := [(0, headerBytes Sacn 1 1000 0 1)],
                    rec_bytesWritten := HEADER_SIZE,
                    rec_previousChannels := replicate (length (rec_previousChannels r3)) 0,
                    rec_startTime := 3000, rec_lastFrameTime := 3000, rec_lastSnapshotTime := 3000,
                    rec_frameCount := 0, rec_writeOffset := 0, rec_state := RecRecording\<rparr>)"
    using r3 by (subst startRecording_ok) simp_all
  have h: "readUInt32LE (headerBytes Sacn 1 1000 0 1) 17 = Inr 0"
       "readUInt32LE (headerBytes Sacn 1 1000 0 1) 21 = Inr 1"
    by (simp_all add: headerBytes_def DMXREC_MAGIC_def u32le_def upt8 readUInt32LE_def)
  show ?thesis
    using r1 r2(1) r3(1) r4 h by (simp add: secondRecordingStart_def bindE_def length_headerBytes)
qed

section \<open>Varint: decoding inverts encoding\<close>

lemma int_split7: "(v::int) = take_bit 7 v OR push_bit 7 (drop_bit 7 v)"
proof (rule bit_eqI)
  fix n
  show "bit v n \<longleftrightarrow> bit (take_bit 7 v OR push_bit 7 (drop_bit 7 v)) n"
    by (cases "n < 7") (simp_all add: bit_simps)
qed

lemma word_split7:
  "(word_of_int v :: 32 word) = word_of_int (v mod 128) OR push_bit 7 (word_of_int (v div 128))"
proof -
  have "(word_of_int v :: 32 word) = word_of_int (take_bit 7 v OR push_bit 7 (drop_bit 7 v))"
    using int_split7[of v] by simp
  also have "\<dots> = word_of_int (take_bit 7 v) OR push_bit 7 (word_of_int (drop_bit 7 v))"
    by (simp add: of_int_or_eq of_int_push_bit)
  finally show ?thesis by (simp add: take_bit_eq_mod drop_bit_eq_div)
qed

lemma byte_mask7: "(0x7F :: byte) = mask 7"
  by (simp add: mask_eq_exp_minus_1)

lemma byte_low7:
  assumes "0 \<le> k" and "k < 256"
  shows "ucast ((word_of_int k :: byte) AND 0x7F) = (word_of_int (k mod 128) :: 32 word)"
proof -
  have u: "uint (word_of_int k :: byte) = k"
    using assms by (simp add: uint_word_of_int)
  have "(word_of_int k :: byte) AND 0x7F = word_of_int (k mod 128)"
    unfolding byte_mask7 and_mask_mod_2p u by simp
  moreover have "ucast (word_of_int (k mod 128) :: byte) = (word_of_int (k mod 128) :: 32 word)"
    by (simp add: unsigned_of_int take_bit_eq_mod)
  ultimately show ?thesis by simp
qed

lemma byte_bit7:
  assumes "0 \<le> k" and "k < 256"
  shows "(word_of_int k :: byte) AND 0x80 = 0 \<longleftrightarrow> k < 128"
proof -
  have d: "k div 128 = (if k < 128 then 0 else 1)" using assms by (simp add: div_pos_pos_trivial) presburger
  have "bit (word_of_int k :: byte) 7 \<longleftrightarrow> bit k 7"
    by (simp only: bit_word_of_int_iff) simp
  also have "\<dots> \<longleftrightarrow> odd (k div 2 ^ 7)" by (rule bit_iff_odd)
  also have "\<dots> \<longleftrightarrow> \<not> k < 128" by (simp add: d)
  finally have "bit (word_of_int k :: byte) 7 \<longleftrightarrow> \<not> k < 128" .
  moreover have "(0x80 :: byte) = 2 ^ 7" by simp
  ultimately show ?thesis
    using and_exp_eq_0_iff_not_bit[of "word_of_int k :: byte" 7] by simp
qed


lemma decodeVarintLoop_encode:
  assumes "0 \<le> v" and "v < 2 ^ (32 - s)" and "s < 32"
  shows "decodeVarintLoop (encodeVarint v @ rest) acc s n
           = (acc OR push_bit s (word_of_int v), n + length (encodeVarint v))"
  using assms
proof (induction v arbitrary: acc s n rule: encodeVarint.induct)
  case (1 v)
  show ?case
  proof (cases "v > 0x7F")
    case False
    then have e: "encodeVarint v = [word_of_int v]"
      using "1.prems" by (subst encodeVarint.simps) simp
    have lo: "ucast ((word_of_int v :: byte) AND 0x7F) = (word_of_int v :: 32 word)"
      using byte_low7[of v] "1.prems" False by simp
    have hi: "(word_of_int v :: byte) AND 0x80 = 0"
      using byte_bit7[of v] "1.prems" False by simp
    show ?thesis using "1.prems" by (simp add: e lo hi)
  next
    case True
    define b where "b = (word_of_int (v mod 128 + 128) :: byte)"
    have v32: "v mod 4294967296 = v"
    proof -
      have "(2::int) ^ (32 - s) \<le> 2 ^ 32" by (rule power_increasing) simp_all
      then show ?thesis using "1.prems" by simp
    qed
    have e: "encodeVarint v = b # encodeVarint (v div 128)"
      using True by (subst encodeVarint.simps) (simp add: v32 b_def)
    have lo: "ucast (b AND 0x7F) = (word_of_int (v mod 128) :: 32 word)"
      unfolding b_def using byte_low7[of "v mod 128 + 128"] by simp
    have hi: "b AND 0x80 \<noteq> 0"
      unfolding b_def using byte_bit7[of "v mod 128 + 128"] by simp
    have s7: "s + 7 < 32"
    proof (rule ccontr)
      assume "\<not> s + 7 < 32"
      then have "32 - s \<le> 7" by simp
      then have "(2::int) ^ (32 - s) \<le> 2 ^ 7" by (rule power_increasing) simp
      then show False using "1.prems" True by simp
    qed
    have bound: "v div 128 < 2 ^ (32 - (s + 7))"
    proof -
      have "32 - s = (32 - (s + 7)) + 7" using s7 by simp
      then have "(2::int) ^ (32 - s) = 2 ^ ((32 - (s + 7)) + 7)" by (rule arg_cong)
      also have "\<dots> = 2 ^ (32 - (s + 7)) * 2 ^ 7" by (rule power_add)
      finally have "(2::int) ^ (32 - s) = 2 ^ (32 - (s + 7)) * 128" by simp
      then have lt: "v < 2 ^ (32 - (s + 7)) * 128" using "1.prems" by simp
      have m: "v = 128 * (v div 128) + v mod 128" by simp
      have m0: "0 \<le> v mod 128" by simp
      show ?thesis using lt m m0 by linarith
    qed
    have nn: "0 \<le> v div 128" using "1.prems" by (simp add: pos_imp_zdiv_nonneg_iff)
    have IH: "decodeVarintLoop (encodeVarint (v div 128) @ rest)
                (acc OR push_bit s (word_of_int (v mod 128))) (s + 7) (n + 1)
              = (acc OR push_bit s (word_of_int (v mod 128)) OR push_bit (s + 7) (word_of_int (v div 128)),
                 n + 1 + length (encodeVarint (v div 128)))"
      using "1.IH"[OF True, unfolded v32, OF nn bound s7,
          of "acc OR push_bit s (word_of_int (v mod 128))" "n + 1"]
      by (simp add: or.assoc)
    have w: "acc OR push_bit s (word_of_int (v mod 128)) OR push_bit (s + 7) (word_of_int (v div 128))
               = acc OR push_bit s (word_of_int v :: 32 word)"
      by (subst (3) word_split7) (simp add: push_bit_or push_bit_push_bit or.assoc add.commute)
    show ?thesis
      using "1.prems"(3) IH w by (simp add: e lo hi Let_def)
  qed
qed

lemma decodeVarint_encodeVarint:
  assumes "0 \<le> v" and "v < 2 ^ 31"
  shows "decodeVarint (pre @ encodeVarint v @ rest) (length pre) = (v, length (encodeVarint v))"
proof -
  have "v < 2 ^ (32 - 0)" using assms by simp
  from decodeVarintLoop_encode[OF assms(1) this, of rest 0 0]
  have "decodeVarintLoop (encodeVarint v @ rest) 0 0 0 = (word_of_int v, length (encodeVarint v))"
    by simp
  moreover have "sint (word_of_int v :: 32 word) = v"
    using assms by (simp add: sint_uint uint_word_of_int signed_take_bit_int_eq_self)
  ultimately show ?thesis by (simp add: decodeVarint_def)
qed

section \<open>Frames: reading inverts writing\<close>

lemma u16le_read:
  assumes "c \<le> 65535"
  shows "readUInt16LE (pre @ u16le c @ rest) (length pre) = Inr c"
proof -
  have lo: "unat (word_of_int (int c mod 256) :: byte) = nat (int c mod 256)"
    by (rule unat_byte_of_int) simp_all
  have hi: "unat (word_of_int (int c div 256) :: byte) = nat (int c div 256)"
    using assms by (intro unat_byte_of_int) auto
  have "nat (int c mod 256) + 256 * nat (int c div 256) = nat (int c)"
    by (rule nat_split256) simp
  then show ?thesis
    by (simp add: readUInt16LE_def u16le_def nth_append lo hi)
qed

lemma length_u16le [simp]: "length (u16le c) = 2"
  by (simp add: u16le_def)

lemma length_changeBytes: "length (changeBytes changes) = 3 * length changes"
  by (induction changes) (auto simp: changeBytes_def)

lemma changeBytes_Cons: "changeBytes ((c, v) # changes) = u16le c @ [v] @ changeBytes changes"
  by (simp add: changeBytes_def)

lemma readChanges_changeBytes:
  assumes "\<forall>c \<in> set changes. fst c \<le> 65535"
  shows "readChanges (pre @ changeBytes changes @ rest) (length pre) (length changes)
           = Inr (changes, length pre + 3 * length changes)"
  using assms
proof (induction changes arbitrary: pre)
  case Nil
  then show ?case by (simp add: changeBytes_def)
next
  case (Cons a changes)
  obtain c v where a: "a = (c, v)" by (cases a)
  have c: "c \<le> 65535" using Cons.prems a by simp
  have r: "readUInt16LE (pre @ u16le c @ [v] @ changeBytes changes @ rest) (length pre) = Inr c"
    using u16le_read[OF c, of pre "[v] @ changeBytes changes @ rest"] by simp
  have b: "byteAt (pre @ u16le c @ [v] @ changeBytes changes @ rest) (length pre + 2) = Some v"
    by (simp add: byteAt_def nth_append)
  have "readChanges ((pre @ u16le c @ [v]) @ changeBytes changes @ rest) (length (pre @ u16le c @ [v])) (length changes)
          = Inr (changes, length (pre @ u16le c @ [v]) + 3 * length changes)"
    using Cons.IH[of "pre @ u16le c @ [v]"] Cons.prems by simp
  then have ih: "readChanges (pre @ u16le c @ [v] @ changeBytes changes @ rest) (length pre + 3) (length changes)
          = Inr (changes, length pre + 3 + 3 * length changes)"
    by (simp add: add.assoc)
  show ?case
    using r b ih by (simp add: a changeBytes_Cons bindE_def)
qed

lemma encodeVarint_nonempty: "encodeVarint v \<noteq> []"
  by (subst encodeVarint.simps) simp

lemma readFrameAt_snapshot:
  assumes "0 \<le> dt" and "dt < 2 ^ 31" and "length d = TOTAL_CHANNELS"
  shows "readFrameAt (pre @ snapshotFrameBytes dt d @ rest) (length pre)
           = Inr (Some \<lparr>fr_deltaTime = dt, fr_changes = [], fr_isSnapshot = True,
                         fr_snapshotData = Some d\<rparr>,
                  length pre + length (snapshotFrameBytes dt d))"
proof -
  let ?n = "length (encodeVarint dt)"
  let ?data = "pre @ snapshotFrameBytes dt d @ rest"
  have data: "?data = pre @ encodeVarint dt @ ([word_of_nat FrameType_SNAPSHOT] @ d @ rest)"
    using assms(3) by (simp add: snapshotFrameBytes_def)
  have dv: "decodeVarint ?data (length pre) = (dt, ?n)"
    unfolding data by (rule decodeVarint_encodeVarint[OF assms(1,2)])
  have data2: "?data = (pre @ encodeVarint dt) @ [word_of_nat FrameType_SNAPSHOT] @ d @ rest"
    by (simp add: data)
  have b: "byteAt ?data (length pre + ?n) = Some (word_of_nat FrameType_SNAPSHOT)"
    unfolding data2 by (simp add: byteAt_def nth_append)
  have u: "unat (word_of_nat FrameType_SNAPSHOT :: byte) = FrameType_SNAPSHOT"
    by (simp add: FrameType_SNAPSHOT_def)
  have data3: "?data = (pre @ encodeVarint dt @ [word_of_nat FrameType_SNAPSHOT]) @ d @ rest"
    by (simp add: data)
  have t: "take TOTAL_CHANNELS (drop (length pre + ?n + 1) ?data) = d"
    using assms(3) by (simp add: snapshotFrameBytes_def)
  have lt: "length pre < length ?data"
    using encodeVarint_nonempty[of dt] by (simp add: snapshotFrameBytes_def)
  have len: "length (snapshotFrameBytes dt d) = ?n + 1 + TOTAL_CHANNELS"
    using assms(3) by (simp add: snapshotFrameBytes_def)
  show ?thesis
    unfolding readFrameAt_def using lt dv b u t len assms(3)
    by (simp add: snapshotFrameBytes_def)
qed

lemma count_byte:
  assumes "n < 254"
  shows "unat (word_of_nat n :: byte) = n"
  using assms by (simp add: unat_of_nat)

lemma readFrameAt_delta:
  assumes "0 \<le> dt" and "dt < 2 ^ 31" and "length changes \<le> 65535"
    and "\<forall>c \<in> set changes. fst c \<le> 65535"
  shows "readFrameAt (pre @ deltaFrameBytes dt changes @ rest) (length pre)
           = Inr (Some \<lparr>fr_deltaTime = dt, fr_changes = changes, fr_isSnapshot = False,
                         fr_snapshotData = None\<rparr>,
                  length pre + length (deltaFrameBytes dt changes))"
proof -
  let ?n = "length (encodeVarint dt)"
  let ?cb = "changeCountBytes (length changes)"
  let ?data = "pre @ deltaFrameBytes dt changes @ rest"
  have data: "?data = pre @ encodeVarint dt @ (?cb @ changeBytes changes @ rest)"
    by (simp add: deltaFrameBytes_def)
  have dv: "decodeVarint ?data (length pre) = (dt, ?n)"
    unfolding data by (rule decodeVarint_encodeVarint[OF assms(1,2)])
  have lt: "length pre < length ?data"
    using encodeVarint_nonempty[of dt] by (simp add: deltaFrameBytes_def)
  have len: "length (deltaFrameBytes dt changes) = ?n + length ?cb + 3 * length changes"
    by (simp add: deltaFrameBytes_def length_changeBytes)
  show ?thesis
  proof (cases "length changes < 254")
    case True
    have cb: "?cb = [word_of_nat (length changes)]"
      using True by (simp add: changeCountBytes_def FrameType_SNAPSHOT_def)
    have data2: "?data = (pre @ encodeVarint dt) @ [word_of_nat (length changes)] @ changeBytes changes @ rest"
      by (simp add: data cb)
    have b: "byteAt ?data (length pre + ?n) = Some (word_of_nat (length changes))"
      unfolding data2 by (simp add: byteAt_def nth_append)
    have u: "unat (word_of_nat (length changes) :: byte) = length changes"
      by (rule count_byte[OF True])
    have data3: "?data = (pre @ encodeVarint dt @ [word_of_nat (length changes)]) @ changeBytes changes @ rest"
      by (simp add: data cb)
    have rc: "readChanges ?data (Suc (length pre + ?n)) (length changes)
                = Inr (changes, Suc (length pre + ?n + 3 * length changes))"
      using readChanges_changeBytes[OF assms(4), of "pre @ encodeVarint dt @ [word_of_nat (length changes)]" rest]
      by (simp add: deltaFrameBytes_def cb)
    show ?thesis
      unfolding readFrameAt_def using lt True
      by (simp add: dv b u rc len cb bindE_def FrameType_SNAPSHOT_def FrameType_EXTENDED_def
          del: append_assoc)
  next
    case False
    have cb: "?cb = word_of_nat FrameType_EXTENDED # u16le (length changes)"
      using False by (simp add: changeCountBytes_def FrameType_SNAPSHOT_def)
    have data2: "?data = (pre @ encodeVarint dt) @ [word_of_nat FrameType_EXTENDED] @ u16le (length changes) @ changeBytes changes @ rest"
      by (simp add: data cb)
    have b: "byteAt ?data (length pre + ?n) = Some (word_of_nat FrameType_EXTENDED)"
      unfolding data2 by (simp add: byteAt_def nth_append)
    have u: "unat (word_of_nat FrameType_EXTENDED :: byte) = 255"
      by (simp add: FrameType_EXTENDED_def)
    have data3: "?data = (pre @ encodeVarint dt @ [word_of_nat FrameType_EXTENDED]) @ u16le (length changes) @ (changeBytes changes @ rest)"
      by (simp add: data cb)
    have r16: "readUInt16LE ?data (Suc (length pre + ?n)) = Inr (length changes)"
      using u16le_read[OF assms(3), of "pre @ encodeVarint dt @ [word_of_nat FrameType_EXTENDED]" "changeBytes changes @ rest"]
      by (simp add: deltaFrameBytes_def cb)
    have data4: "?data = (pre @ encodeVarint dt @ [word_of_nat FrameType_EXTENDED] @ u16le (length changes)) @ changeBytes changes @ rest"
      by (simp add: data cb)
    have rc: "readChanges ?data (length pre + ?n + 3) (length changes)
                = Inr (changes, length pre + ?n + 3 + 3 * length changes)"
      using readChanges_changeBytes[OF assms(4), of "pre @ encodeVarint dt @ [word_of_nat FrameType_EXTENDED] @ u16le (length changes)" rest]
      by (simp add: deltaFrameBytes_def cb add.assoc)
    show ?thesis
      unfolding readFrameAt_def using lt
      by (simp add: dv b u r16 rc len cb bindE_def FrameType_SNAPSHOT_def FrameType_EXTENDED_def
          del: append_assoc)
  qed
qed

lemma readFrameAt_encodeFrame:
  assumes "validFrame f"
  shows "readFrameAt (pre @ encodeFrame f @ rest) (length pre)
           = Inr (Some f, length pre + length (encodeFrame f))"
proof (cases "fr_snapshotData f")
  case None
  have f: "f = \<lparr>fr_deltaTime = fr_deltaTime f, fr_changes = fr_changes f, fr_isSnapshot = False,
                 fr_snapshotData = None\<rparr>"
    using assms None by (cases f) (simp add: validFrame_def)
  have "readFrameAt (pre @ deltaFrameBytes (fr_deltaTime f) (fr_changes f) @ rest) (length pre)
           = Inr (Some \<lparr>fr_deltaTime = fr_deltaTime f, fr_changes = fr_changes f, fr_isSnapshot = False,
                 fr_snapshotData = None\<rparr>, length pre + length (deltaFrameBytes (fr_deltaTime f) (fr_changes f)))"
    using assms None by (intro readFrameAt_delta) (auto simp: validFrame_def list_all_iff)
  then show ?thesis using None f by (simp add: encodeFrame_def)
next
  case (Some d)
  have f: "f = \<lparr>fr_deltaTime = fr_deltaTime f, fr_changes = [], fr_isSnapshot = True,
                 fr_snapshotData = Some d\<rparr>"
    using assms Some by (cases f) (simp add: validFrame_def)
  have "readFrameAt (pre @ snapshotFrameBytes (fr_deltaTime f) d @ rest) (length pre)
           = Inr (Some \<lparr>fr_deltaTime = fr_deltaTime f, fr_changes = [], fr_isSnapshot = True,
                 fr_snapshotData = Some d\<rparr>, length pre + length (snapshotFrameBytes (fr_deltaTime f) d))"
    using assms Some by (intro readFrameAt_snapshot) (auto simp: validFrame_def)
  then show ?thesis using Some f by (simp add: encodeFrame_def)
qed

lemma encodeFrame_nonempty: "encodeFrame f \<noteq> []"
  by (simp add: encodeFrame_def snapshotFrameBytes_def deltaFrameBytes_def encodeVarint_nonempty
      split: option.splits)

lemma framesBytes_append: "framesBytes (xs @ ys) = framesBytes xs @ framesBytes ys"
  by (simp add: framesBytes_def)

lemma framesBytes_split:
  assumes "k < length fs"
  shows "framesBytes fs = framesBytes (take k fs) @ encodeFrame (fs ! k) @ framesBytes (drop (Suc k) fs)"
proof -
  have "fs = take k fs @ fs ! k # drop (Suc k) fs" using assms by (rule id_take_nth_drop)
  then have "framesBytes fs = framesBytes (take k fs @ fs ! k # drop (Suc k) fs)" by simp
  then show ?thesis by (simp add: framesBytes_def)
qed

lemma framesBytes_take_Suc:
  assumes "k < length fs"
  shows "framesBytes (take (Suc k) fs) = framesBytes (take k fs) @ encodeFrame (fs ! k)"
  using assms by (simp add: take_Suc_conv_app_nth framesBytes_def)

lemma boundary_less:
  assumes "k < length fs"
  shows "length (framesBytes (take k fs)) < length (framesBytes fs)"
  using framesBytes_split[OF assms] encodeFrame_nonempty[of "fs ! k"]
  by (metis length_append length_greater_0_conv less_add_same_cancel1 trans_less_add1)

lemma readFrameAt_nth:
  assumes "\<forall>f \<in> set fs. validFrame f" and "k < length fs"
  shows "readFrameAt (framesBytes fs) (length (framesBytes (take k fs)))
           = Inr (Some (fs ! k), length (framesBytes (take (Suc k) fs)))"
proof -
  have v: "validFrame (fs ! k)" using assms by simp
  from readFrameAt_encodeFrame[OF v, of "framesBytes (take k fs)" "framesBytes (drop (Suc k) fs)"]
  show ?thesis
    by (simp add: framesBytes_split[OF assms(2), symmetric] framesBytes_take_Suc[OF assms(2)])
qed

lemma applyFrame_valid:
  assumes "validFrame f" and "length channels = TOTAL_CHANNELS"
  shows "\<exists>c'. applyFrame f channels = Inr c' \<and> length c' = TOTAL_CHANNELS"
proof (cases "fr_snapshotData f")
  case None
  have "length (foldl (\<lambda>ch (channel, v). ch[channel := v]) channels cs) = length channels" for cs
    by (induction cs arbitrary: channels) (auto split: prod.splits)
  then show ?thesis using None assms by (simp add: applyFrame_def split: bool.splits)
next
  case (Some d)
  then show ?thesis using assms by (simp add: applyFrame_def validFrame_def typedSet_def)
qed

lemma playStates_length:
  assumes "\<forall>f \<in> set fs. validFrame f" and "length channels = TOTAL_CHANNELS"
  shows "length (playStates fs channels) = length fs \<and>
         (\<forall>c \<in> set (playStates fs channels). length c = TOTAL_CHANNELS)"
  using assms
proof (induction fs arbitrary: channels)
  case Nil
  then show ?case by simp
next
  case (Cons f fs)
  from applyFrame_valid[of f channels] Cons.prems
  obtain c' where c': "applyFrame f channels = Inr c'" "length c' = TOTAL_CHANNELS" by auto
  from Cons.IH[of c'] Cons.prems c' show ?case by simp
qed

lemma playStates_nth:
  assumes "\<forall>f \<in> set fs. validFrame f" and "length channels = TOTAL_CHANNELS" and "k < length fs"
  shows "applyFrame (fs ! k) (last (channels # take k (playStates fs channels)))
           = Inr (playStates fs channels ! k)"
  using assms
proof (induction fs arbitrary: channels k)
  case Nil
  then show ?case by simp
next
  case (Cons f fs)
  from applyFrame_valid[of f channels] Cons.prems
  obtain c' where c': "applyFrame f channels = Inr c'" "length c' = TOTAL_CHANNELS" by auto
  show ?case
  proof (cases k)
    case 0
    then show ?thesis using c' by simp
  next
    case (Suc j)
    from Cons.IH[of c' j] Cons.prems c' Suc
    have "applyFrame (fs ! j) (last (c' # take j (playStates fs c'))) = Inr (playStates fs c' ! j)"
      by simp
    then show ?thesis using c' Suc by simp
  qed
qed

section \<open>Player: uninterrupted playback\<close>

lemma scheduleNextFrame_playing:
  assumes "\<forall>f \<in> set fs. validFrame f"
    and "pl_frameData p = Some (framesBytes fs)" and "pl_header p = Some header"
    and "hdr_frameCount header = length fs" and "\<not> pl_loopEnabled p"
    and "pl_state p = PlayPlaying" and "pl_frameOffset p = length (framesBytes (take k fs))"
    and "pl_currentFrame p = k" and "k \<le> length fs"
  shows "scheduleNextFrame p =
           (if k < length fs
            then Inr (armTimer (fs ! k) (p\<lparr>pl_frameOffset := length (framesBytes (take (Suc k) fs))\<rparr>), [])
            else Inr (p\<lparr>pl_state := PlayFinished\<rparr>, [StateChangeEvent PlayFinished, FinishedEvent]))"
proof (cases "k < length fs")
  case True
  have lt: "pl_frameOffset p < length (framesBytes fs)"
    using boundary_less[OF True] assms(7) by simp
  have r: "readFrameAt (framesBytes fs) (pl_frameOffset p)
             = Inr (Some (fs ! k), length (framesBytes (take (Suc k) fs)))"
    using readFrameAt_nth[OF assms(1) True] assms(7) by simp
  show ?thesis
    using True lt r assms(2-6,8)
    by (simp add: scheduleNextFrame_def nextFrame_def readNextFrame_def bindE_def)
next
  case False
  then have "k = length fs" using assms(9) by simp
  then show ?thesis
    using assms(2-8)
    by (simp add: scheduleNextFrame_def nextFrame_def bindE_def setState_def)
qed

lemma onTimer_step:
  assumes "\<forall>f \<in> set fs. validFrame f" and "afterTimers fs header k p" and "k < length fs"
  shows "\<exists>p'. onTimer p
                = Inr (p', FrameEvent (playStates fs (replicate TOTAL_CHANNELS 0) ! k) #
                           PositionEvent (pl_currentPosition p) (hdr_duration header) #
                           (if Suc k < length fs then []
                            else [StateChangeEvent PlayFinished, FinishedEvent])) \<and>
              afterTimers fs header (Suc k) p'"
proof -
  let ?z = "replicate TOTAL_CHANNELS (0::byte)"
  let ?c = "playStates fs ?z ! k"
  have a: "applyFrame (fs ! k) (pl_channels p) = Inr ?c"
    using playStates_nth[OF assms(1) _ assms(3), of ?z] assms(2) by (simp add: afterTimers_def)
  have pl: "length (playStates fs ?z) = length fs" "length ?c = TOTAL_CHANNELS"
    using playStates_length[OF assms(1), of ?z] assms(3) by auto
  have lastc: "last (?z # take (Suc k) (playStates fs ?z)) = ?c"
    using pl(1) assms(3) by (simp add: take_Suc_conv_app_nth)
  define p1 where "p1 = p\<lparr>pl_channels := ?c, pl_currentFrame := Suc k, pl_pendingFrame := None\<rparr>"
  have s: "scheduleNextFrame p1 =
           (if Suc k < length fs
            then Inr (armTimer (fs ! Suc k) (p1\<lparr>pl_frameOffset := length (framesBytes (take (Suc (Suc k)) fs))\<rparr>), [])
            else Inr (p1\<lparr>pl_state := PlayFinished\<rparr>, [StateChangeEvent PlayFinished, FinishedEvent]))"
  proof (rule scheduleNextFrame_playing[OF assms(1)])
    show "pl_frameData p1 = Some (framesBytes fs)" using assms(2) by (simp add: afterTimers_def p1_def)
    show "pl_header p1 = Some header" using assms(2) by (simp add: afterTimers_def p1_def)
    show "hdr_frameCount header = length fs" using assms(2) unfolding afterTimers_def by blast
    show "\<not> pl_loopEnabled p1" using assms(2) by (simp add: afterTimers_def p1_def)
    show "pl_state p1 = PlayPlaying" using assms(2,3) by (simp add: afterTimers_def p1_def)
    show "pl_frameOffset p1 = length (framesBytes (take (Suc k) fs))"
      using assms(2,3) by (simp add: afterTimers_def p1_def)
    show "pl_currentFrame p1 = Suc k" by (simp add: p1_def)
    show "Suc k \<le> length fs" using assms(3) by simp
  qed
  show ?thesis
  proof (cases "Suc k < length fs")
    case True
    have "onTimer p = Inr (armTimer (fs ! Suc k) (p1\<lparr>pl_frameOffset := length (framesBytes (take (Suc (Suc k)) fs))\<rparr>),
                          [FrameEvent ?c, PositionEvent (pl_currentPosition p) (hdr_duration header)])"
      using assms(2,3) a s True
      by (simp add: onTimer_def afterTimers_def bindE_def Let_def p1_def[symmetric])
         (simp add: p1_def)
    moreover have "afterTimers fs header (Suc k)
        (armTimer (fs ! Suc k) (p1\<lparr>pl_frameOffset := length (framesBytes (take (Suc (Suc k)) fs))\<rparr>))"
      using assms(2) True pl lastc by (simp add: afterTimers_def armTimer_def p1_def)
    ultimately show ?thesis using True by simp
  next
    case False
    then have e: "Suc k = length fs" using assms(3) by simp
    have "onTimer p = Inr (p1\<lparr>pl_state := PlayFinished\<rparr>,
                          [FrameEvent ?c, PositionEvent (pl_currentPosition p) (hdr_duration header),
                           StateChangeEvent PlayFinished, FinishedEvent])"
      using assms(2,3) a s False
      by (simp add: onTimer_def afterTimers_def bindE_def Let_def p1_def[symmetric])
         (simp add: p1_def)
    moreover have "afterTimers fs header (Suc k) (p1\<lparr>pl_state := PlayFinished\<rparr>)"
      using assms(2) e pl lastc by (simp add: afterTimers_def p1_def)
    ultimately show ?thesis using False by simp
  qed
qed

lemma fireTimers_run:
  assumes "\<forall>f \<in> set fs. validFrame f" and "afterTimers fs header k p" and "k + n \<le> length fs"
  shows "\<exists>p' evs. fireTimers n p = Inr (p', evs) \<and> afterTimers fs header (k + n) p' \<and>
           emittedFrames evs = take n (drop k (playStates fs (replicate TOTAL_CHANNELS 0)))"
  using assms(2,3)
proof (induction n arbitrary: k p)
  case 0
  then show ?case by simp
next
  case (Suc n)
  let ?z = "replicate TOTAL_CHANNELS (0::byte)"
  have k: "k < length fs" using Suc.prems by simp
  from onTimer_step[OF assms(1) Suc.prems(1) k]
  obtain p1 where p1: "onTimer p
                = Inr (p1, FrameEvent (playStates fs ?z ! k) #
                           PositionEvent (pl_currentPosition p) (hdr_duration header) #
                           (if Suc k < length fs then []
                            else [StateChangeEvent PlayFinished, FinishedEvent]))"
      "afterTimers fs header (Suc k) p1" by blast
  from Suc.IH[OF p1(2)] Suc.prems(2)
  obtain p' evs where r: "fireTimers n p1 = Inr (p', evs)" "afterTimers fs header (Suc k + n) p'"
      "emittedFrames evs = take n (drop (Suc k) (playStates fs ?z))" by auto
  have pl: "length (playStates fs ?z) = length fs"
    using playStates_length[OF assms(1), of ?z] by simp
  have ef: "emittedFrames (xs @ ys) = emittedFrames xs @ emittedFrames ys" for xs ys
    by (induction xs rule: emittedFrames.induct) auto
  have "take (Suc n) (drop k (playStates fs ?z)) = playStates fs ?z ! k # take n (drop (Suc k) (playStates fs ?z))"
    using k pl by (simp add: Cons_nth_drop_Suc[symmetric])
  then show ?case
    using p1(1) r by (auto simp: bindE_def)
qed

lemma fireTimers_idle: "pl_pendingFrame p = None \<Longrightarrow> fireTimers m p = Inr (p, [])"
  by (induction m) (auto simp: onTimer_def bindE_def)

section \<open>Loading a recorded file and starting playback\<close>

lemma int_split_u32:
  fixes v :: int
  assumes "0 \<le> v"
  shows "nat (v mod 256) + 256 * nat (v div 256 mod 256) + 65536 * nat (v div 65536 mod 256)
           + 16777216 * nat (v div 16777216) = nat v"
proof -
  have a: "nat (v mod 256) + 256 * nat (v div 256) = nat v"
    by (rule nat_split256[OF assms])
  have v1: "0 \<le> v div 256" using assms by (simp add: pos_imp_zdiv_nonneg_iff)
  have b: "nat (v div 256 mod 256) + 256 * nat (v div 256 div 256) = nat (v div 256)"
    by (rule nat_split256[OF v1])
  have v2: "0 \<le> v div 256 div 256" using v1 by (simp add: pos_imp_zdiv_nonneg_iff)
  have c: "nat (v div 256 div 256 mod 256) + 256 * nat (v div 256 div 256 div 256) = nat (v div 256 div 256)"
    by (rule nat_split256[OF v2])
  have d2: "v div 256 div 256 = v div 65536" by (simp add: zdiv_zmult2_eq[symmetric])
  have d3: "v div 65536 div 256 = v div 16777216" by (simp add: zdiv_zmult2_eq[symmetric])
  have a': "nat v = nat (v mod 256) + 256 * nat (v div 256)" using a by simp
  have b': "nat (v div 256) = nat (v div 256 mod 256) + 256 * nat (v div 65536)"
    using b unfolding d2 by simp
  have c': "nat (v div 65536) = nat (v div 65536 mod 256) + 256 * nat (v div 16777216)"
    using c unfolding d2 d3 by simp
  show ?thesis
    by (subst a', subst b', subst c') (simp add: algebra_simps)
qed


lemma headerBytes_nth:
  "headerBytes p u s d n ! 4 = 1"
  "headerBytes p u s d n ! 17 = word_of_int (d mod 256)"
  "headerBytes p u s d n ! 18 = word_of_int (d div 256 mod 256)"
  "headerBytes p u s d n ! 19 = word_of_int (d div 65536 mod 256)"
  "headerBytes p u s d n ! 20 = word_of_int (d div 16777216)"
  "headerBytes p u s d n ! 21 = word_of_int (int n mod 256)"
  "headerBytes p u s d n ! 22 = word_of_int (int n div 256 mod 256)"
  "headerBytes p u s d n ! 23 = word_of_int (int n div 65536 mod 256)"
  "headerBytes p u s d n ! 24 = word_of_int (int n div 16777216)"
  "take 4 (headerBytes p u s d n) = DMXREC_MAGIC"
  by (simp_all add: headerBytes_def DMXREC_MAGIC_def nth_append u32le_def)

lemma u32_bytes:
  fixes v :: int
  assumes "0 \<le> v" and "v \<le> 4294967295"
  shows "unat (word_of_int (v mod 256) :: byte) + 256 * unat (word_of_int (v div 256 mod 256) :: byte)
         + 65536 * unat (word_of_int (v div 65536 mod 256) :: byte)
         + 16777216 * unat (word_of_int (v div 16777216) :: byte) = nat v"
proof -
  have b0: "unat (word_of_int (v mod 256) :: byte) = nat (v mod 256)"
    by (rule unat_byte_of_int) simp_all
  have b1: "unat (word_of_int (v div 256 mod 256) :: byte) = nat (v div 256 mod 256)"
    by (rule unat_byte_of_int) simp_all
  have b2: "unat (word_of_int (v div 65536 mod 256) :: byte) = nat (v div 65536 mod 256)"
    by (rule unat_byte_of_int) simp_all
  have b3: "unat (word_of_int (v div 16777216) :: byte) = nat (v div 16777216)"
    using assms by (intro unat_byte_of_int) auto
  show ?thesis
    unfolding b0 b1 b2 b3 by (rule int_split_u32[OF assms(1)])
qed

lemma parseHeader_headerBytes:
  assumes "0 \<le> duration" and "duration \<le> 4294967295" and "frameCount \<le> 4294967295"
  shows "\<exists>header. parseHeader (headerBytes protocol universe startTime duration frameCount @ data)
                     = Inr header \<and>
                   hdr_frameCount header = frameCount \<and> hdr_duration header = nat duration"
proof -
  let ?h = "headerBytes protocol universe startTime duration frameCount"
  have l: "length ?h = 32" by (rule length_headerBytes)
  have nth: "k < 32 \<Longrightarrow> (?h @ data) ! k = ?h ! k" for k by (simp add: nth_append l)
  have d: "readUInt32LE (?h @ data) 17 = Inr (nat duration)"
    using u32_bytes[OF assms(1,2)] by (simp add: readUInt32LE_def l nth headerBytes_nth)
  have n: "readUInt32LE (?h @ data) 21 = Inr frameCount"
    using u32_bytes[of "int frameCount"] assms(3)
    by (simp add: readUInt32LE_def l nth headerBytes_nth)
  have magic: "map (\<lambda>b. b AND 0x7F) (take 4 (?h @ data)) = DMXREC_MAGIC"
    by (simp add: l headerBytes_nth) (simp add: DMXREC_MAGIC_def)
  have ver: "readUInt8 (?h @ data) 4 = Inr 1"
    by (simp add: readUInt8_def l nth headerBytes_nth)
  have r5: "\<exists>x. readUInt8 (?h @ data) 5 = Inr x" by (simp add: readUInt8_def l)
  have r6: "\<exists>x. readUInt8 (?h @ data) 6 = Inr x" by (simp add: readUInt8_def l)
  have r7: "\<exists>x. readUInt16LE (?h @ data) 7 = Inr x" by (simp add: readUInt16LE_def l)
  have r9: "\<exists>x. readBigInt64LE (?h @ data) 9 = Inr x" by (simp add: readBigInt64LE_def l)
  from r5 r6 r7 r9 obtain x5 x6 x7 x9 where x:
      "readUInt8 (?h @ data) 5 = Inr x5" "readUInt8 (?h @ data) 6 = Inr x6"
      "readUInt16LE (?h @ data) 7 = Inr x7" "readBigInt64LE (?h @ data) 9 = Inr x9" by blast
  have len: "\<not> length (?h @ data) < HEADER_SIZE" by (simp add: l HEADER_SIZE_def)
  show ?thesis
    unfolding parseHeader_def Let_def
    by (simp only: len magic ver x d n bindE_def if_False sum.case simp_thms)
       (simp add: DMXREC_VERSION_def)
qed


lemma load_recording:
  assumes "0 \<le> duration" and "duration \<le> 4294967295" and "frameCount \<le> 4294967295"
  shows "\<exists>header. load (headerBytes protocol universe startTime duration frameCount @ data) newPlayer
                     = Inr (newPlayer\<lparr>pl_header := Some header, pl_frameData := Some data\<rparr>, []) \<and>
                   hdr_frameCount header = frameCount \<and> hdr_duration header = nat duration"
proof -
  from parseHeader_headerBytes[OF assms, of protocol universe startTime data]
  obtain header where h: "parseHeader (headerBytes protocol universe startTime duration frameCount @ data)
                     = Inr header" "hdr_frameCount header = frameCount" "hdr_duration header = nat duration"
    by blast
  have "load (headerBytes protocol universe startTime duration frameCount @ data) newPlayer
          = Inr (newPlayer\<lparr>pl_header := Some header, pl_frameData := Some data\<rparr>, [])"
    by (simp add: load_def h(1) bindE_def newPlayer_def length_headerBytes HEADER_SIZE_def)
  with h(2,3) show ?thesis by blast
qed

lemma play_start:
  assumes "\<forall>f \<in> set fs. validFrame f" and "hdr_frameCount header = length fs"
  shows "\<exists>p1 evs. play (newPlayer\<lparr>pl_header := Some header, pl_frameData := Some (framesBytes fs)\<rparr>)
                     = Inr (p1, evs) \<and> emittedFrames evs = [] \<and> afterTimers fs header 0 p1"
proof -
  let ?p = "newPlayer\<lparr>pl_header := Some header, pl_frameData := Some (framesBytes fs)\<rparr>"
  let ?p2 = "?p\<lparr>pl_state := PlayPlaying\<rparr>"
  have s: "scheduleNextFrame ?p2 =
           (if 0 < length fs
            then Inr (armTimer (fs ! 0) (?p2\<lparr>pl_frameOffset := length (framesBytes (take (Suc 0) fs))\<rparr>), [])
            else Inr (?p2\<lparr>pl_state := PlayFinished\<rparr>, [StateChangeEvent PlayFinished, FinishedEvent]))"
    by (rule scheduleNextFrame_playing[OF assms(1), where header = header])
       (simp_all add: newPlayer_def assms(2) framesBytes_def)
  have pl: "play ?p = bindE (scheduleNextFrame ?p2) (\<lambda>(p3, events). Inr (p3, StateChangeEvent PlayPlaying # events))"
    by (simp add: play_def newPlayer_def setState_def Let_def)
  show ?thesis
  proof (cases "0 < length fs")
    case True
    have s': "scheduleNextFrame ?p2
        = Inr (armTimer (fs ! 0) (?p2\<lparr>pl_frameOffset := length (framesBytes (take (Suc 0) fs))\<rparr>), [])"
      unfolding s using True by (simp only: if_True)
    have "play ?p = Inr (armTimer (fs ! 0) (?p2\<lparr>pl_frameOffset := length (framesBytes (take (Suc 0) fs))\<rparr>),
                         [StateChangeEvent PlayPlaying])"
      unfolding pl s' by (simp add: bindE_def)
    moreover have "afterTimers fs header 0
        (armTimer (fs ! 0) (?p2\<lparr>pl_frameOffset := length (framesBytes (take (Suc 0) fs))\<rparr>))"
      using True by (simp add: afterTimers_def armTimer_def newPlayer_def assms(2))
    ultimately show ?thesis by simp
  next
    case False
    have s': "scheduleNextFrame ?p2
        = Inr (?p2\<lparr>pl_state := PlayFinished\<rparr>, [StateChangeEvent PlayFinished, FinishedEvent])"
      unfolding s using False by (simp only: if_False)
    have "play ?p = Inr (?p2\<lparr>pl_state := PlayFinished\<rparr>,
                         [StateChangeEvent PlayPlaying, StateChangeEvent PlayFinished, FinishedEvent])"
      unfolding pl s' by (simp add: bindE_def)
    moreover have "afterTimers fs header 0 (?p2\<lparr>pl_state := PlayFinished\<rparr>)"
      using False by (simp add: afterTimers_def newPlayer_def assms(2) framesBytes_def)
    ultimately show ?thesis by simp
  qed
qed

section \<open>Recording round trip\<close>

lemma length_storedFrames:
  "length (storedFrames lft ls first prev inputs) = length (keptInputs ls first prev inputs)"
  by (induction inputs arbitrary: lft ls first prev) auto

lemma length_keptInputs: "length (keptInputs ls first prev inputs) \<le> length inputs"
proof (induction inputs arbitrary: ls first prev)
  case Nil
  then show ?case by simp
next
  case (Cons a inputs)
  obtain now channels where a: "a = (now, channels)" by (cases a)
  show ?case
    using Cons[of now False channels] Cons[of ls False channels] Cons[of ls False prev]
    by (simp add: a le_SucI)
qed

lemma foldl_update_length:
  "length (foldl (\<lambda>ch (c, v). ch[c := v]) ch (map (\<lambda>i. (i, f i)) xs)) = length ch"
  by (induction xs arbitrary: ch) auto

lemma foldl_update_nth:
  "j < length ch \<Longrightarrow>
   foldl (\<lambda>ch (c, v). ch[c := v]) ch (map (\<lambda>i. (i, f i)) xs) ! j = (if j \<in> set xs then f j else ch ! j)"
proof (induction xs arbitrary: ch)
  case Nil
  then show ?case by simp
next
  case (Cons i xs)
  have l: "j < length (ch[i := f i])" using Cons.prems by simp
  show ?case
    using Cons.IH[OF l] Cons.prems by (auto simp: nth_list_update)
qed

lemma apply_changes:
  assumes "length channels = TOTAL_CHANNELS" and "length prev = TOTAL_CHANNELS"
  shows "foldl (\<lambda>ch (c, v). ch[c := v]) prev (computeChanges channels prev) = channels"
proof (rule nth_equalityI)
  show "length (foldl (\<lambda>ch (c, v). ch[c := v]) prev (computeChanges channels prev)) = length channels"
    using assms by (simp add: computeChanges_def foldl_update_length)
next
  fix j
  assume "j < length (foldl (\<lambda>ch (c, v). ch[c := v]) prev (computeChanges channels prev))"
  then have j: "j < TOTAL_CHANNELS"
    using assms by (simp add: computeChanges_def foldl_update_length)
  then have jp: "j < length prev" using assms by simp
  have c: "channelOr0 channels j = channels ! j" "channelOr0 prev j = prev ! j"
    using j assms by (simp_all add: channelOr0_def byteAt_def)
  show "foldl (\<lambda>ch (c, v). ch[c := v]) prev (computeChanges channels prev) ! j = channels ! j"
    unfolding computeChanges_def using foldl_update_nth[OF jp, of "channelOr0 channels"] j c
    by auto
qed

lemma playStates_stored:
  assumes "\<forall>x \<in> set inputs. length (snd x) = TOTAL_CHANNELS" and "length prev = TOTAL_CHANNELS"
  shows "playStates (storedFrames lft ls first prev inputs) prev
           = map snd (keptInputs ls first prev inputs)"
  using assms
proof (induction inputs arbitrary: lft ls first prev)
  case Nil
  then show ?case by simp
next
  case (Cons a inputs)
  obtain now channels where a: "a = (now, channels)" by (cases a)
  have lc: "length channels = TOTAL_CHANNELS" and rest: "\<forall>x \<in> set inputs. length (snd x) = TOTAL_CHANNELS"
    using Cons.prems(1) a by auto
  have snap: "applyFrame \<lparr>fr_deltaTime = d, fr_changes = [], fr_isSnapshot = True,
                 fr_snapshotData = Some channels\<rparr> prev = Inr channels" for d
    using lc Cons.prems(2) by (simp add: applyFrame_def typedSet_def)
  have delta: "applyFrame \<lparr>fr_deltaTime = d, fr_changes = computeChanges channels prev,
                 fr_isSnapshot = False, fr_snapshotData = None\<rparr> prev = Inr channels" for d
    using apply_changes[OF lc Cons.prems(2)] by (simp add: applyFrame_def)
  show ?case
    using Cons.IH[OF rest lc] Cons.IH[OF rest Cons.prems(2)]
    by (simp add: a snap delta)
qed

lemma storedFrames_valid:
  assumes "sorted (map fst inputs)"
    and "\<forall>x \<in> set inputs. lft \<le> fst x \<and> fst x - t0 < 2 ^ 31 \<and> length (snd x) = TOTAL_CHANNELS"
    and "t0 \<le> lft"
  shows "\<forall>f \<in> set (storedFrames lft ls first prev inputs). validFrame f"
  using assms
proof (induction inputs arbitrary: lft ls first prev)
  case Nil
  then show ?case by simp
next
  case (Cons a inputs)
  obtain now channels where a: "a = (now, channels)" by (cases a)
  have n: "lft \<le> now" "now - t0 < 2 ^ 31" "length channels = TOTAL_CHANNELS"
    using Cons.prems(2) a by auto
  have s: "sorted (map fst inputs)" using Cons.prems(1) by simp
  have r1: "\<forall>x \<in> set inputs. now \<le> fst x \<and> fst x - t0 < 2 ^ 31 \<and> length (snd x) = TOTAL_CHANNELS"
    using Cons.prems(1,2) a by auto
  have r2: "\<forall>x \<in> set inputs. lft \<le> fst x \<and> fst x - t0 < 2 ^ 31 \<and> length (snd x) = TOTAL_CHANNELS"
    using Cons.prems(2) by auto
  have t: "t0 \<le> now" using n(1) Cons.prems(3) by simp
  have d: "0 \<le> now - lft" "now - lft < 2 ^ 31" using n(1,2) Cons.prems(3) by auto
  have v1: "validFrame \<lparr>fr_deltaTime = (if first then 0 else now - lft), fr_changes = [],
            fr_isSnapshot = True, fr_snapshotData = Some channels\<rparr>"
    using d n(3) by (simp add: validFrame_def)
  have v2: "validFrame \<lparr>fr_deltaTime = now - lft, fr_changes = computeChanges channels prev,
            fr_isSnapshot = False, fr_snapshotData = None\<rparr>"
    using d computeChanges_bounds[of channels prev]
    by (auto simp: validFrame_def TOTAL_CHANNELS_def list_all_iff)
  show ?case
    using Cons.IH[OF s r1 t] Cons.IH[OF s r2 Cons.prems(3)] v1 v2
    by (simp add: a)
qed


lemma meta_update_facts:
  assumes "appended r r1 d"
    and r2_def: "r2 = r1\<lparr>rec_lastSnapshotTime := ls, rec_previousChannels := channels,
                     rec_lastFrameTime := now, rec_frameCount := rec_frameCount r + 1\<rparr>"
  shows "rec_state r2 = rec_state r" "bufferInvariant r2" "stream r2 = stream r @ d"
    "take HEADER_SIZE (rec_file r2) = take HEADER_SIZE (rec_file r)"
    "rec_startTime r2 = rec_startTime r" "rec_universe r2 = rec_universe r"
    "rec_protocol r2 = rec_protocol r" "rec_previousChannels r2 = channels"
    "rec_lastFrameTime r2 = now" "rec_lastSnapshotTime r2 = ls"
    "rec_frameCount r2 = rec_frameCount r + 1" "\<not> isFirstFrame r2"
  using assms(1) appended_meta[OF assms(1)]
  by (simp_all add: r2_def appended_def bufferInvariant_def stream_def isFirstFrame_def)

lemma recordFrames_stored:
  assumes "rec_state r = RecRecording" and "bufferInvariant r"
    and "length (rec_previousChannels r) = TOTAL_CHANNELS"
    and "\<forall>x \<in> set inputs. length (snd x) = TOTAL_CHANNELS"
  shows "\<exists>r'. recordFrames inputs r = Inr r' \<and> rec_state r' = RecRecording \<and> bufferInvariant r' \<and>
           stream r' = stream r @ framesBytes (storedFrames (rec_lastFrameTime r)
               (rec_lastSnapshotTime r) (isFirstFrame r) (rec_previousChannels r) inputs) \<and>
           rec_frameCount r' = rec_frameCount r + length (storedFrames (rec_lastFrameTime r)
               (rec_lastSnapshotTime r) (isFirstFrame r) (rec_previousChannels r) inputs) \<and>
           take HEADER_SIZE (rec_file r') = take HEADER_SIZE (rec_file r) \<and>
           rec_startTime r' = rec_startTime r \<and> rec_universe r' = rec_universe r \<and>
           rec_protocol r' = rec_protocol r"
  using assms
proof (induction inputs arbitrary: r)
  case Nil
  then show ?case by (simp add: framesBytes_def)
next
  case (Cons a inputs)
  obtain now channels where a: "a = (now, channels)" by (cases a)
  have lc: "length channels = TOTAL_CHANNELS" and rest: "\<forall>x \<in> set inputs. length (snd x) = TOTAL_CHANNELS"
    using Cons.prems(4) a by auto
  let ?lft = "rec_lastFrameTime r" and ?ls = "rec_lastSnapshotTime r" and ?prev = "rec_previousChannels r"
  show ?case
  proof (cases "needsSnapshot now r")
    case True
    from recordFrame_snapshot[OF Cons.prems(1,2) True lc Cons.prems(3)]
    obtain r1 where r1: "appended r r1 (snapshotFrameBytes (frameDeltaTime now r) channels)"
        "recordFrame now channels r
             = Inr (r1\<lparr>rec_lastSnapshotTime := now, rec_previousChannels := channels,
                       rec_lastFrameTime := now, rec_frameCount := rec_frameCount r + 1\<rparr>)"
      by blast
    let ?r2 = "r1\<lparr>rec_lastSnapshotTime := now, rec_previousChannels := channels,
                       rec_lastFrameTime := now, rec_frameCount := rec_frameCount r + 1\<rparr>"
    note m = meta_update_facts[where ls = now and channels = channels and now = now, OF r1(1) refl]
    have p2: "rec_state ?r2 = RecRecording" "length (rec_previousChannels ?r2) = TOTAL_CHANNELS"
      unfolding m(1) m(8) by (rule Cons.prems(1), rule lc)
    from Cons.IH[OF p2(1) m(2) p2(2) rest]
    obtain r' where r': "recordFrames inputs ?r2 = Inr r'" "rec_state r' = RecRecording" "bufferInvariant r'"
        "stream r' = stream ?r2 @ framesBytes (storedFrames (rec_lastFrameTime ?r2)
               (rec_lastSnapshotTime ?r2) (isFirstFrame ?r2) (rec_previousChannels ?r2) inputs)"
        "rec_frameCount r' = rec_frameCount ?r2 + length (storedFrames (rec_lastFrameTime ?r2)
               (rec_lastSnapshotTime ?r2) (isFirstFrame ?r2) (rec_previousChannels ?r2) inputs)"
        "take HEADER_SIZE (rec_file r') = take HEADER_SIZE (rec_file ?r2)"
        "rec_startTime r' = rec_startTime ?r2" "rec_universe r' = rec_universe ?r2"
        "rec_protocol r' = rec_protocol ?r2"
      by blast
    have st: "storedFrames ?lft ?ls (isFirstFrame r) ?prev (a # inputs)
        = \<lparr>fr_deltaTime = frameDeltaTime now r, fr_changes = [], fr_isSnapshot = True,
            fr_snapshotData = Some channels\<rparr> # storedFrames now now False channels inputs"
      using True by (simp add: a needsSnapshot_def frameDeltaTime_def)
    have enc: "encodeFrame \<lparr>fr_deltaTime = frameDeltaTime now r, fr_changes = [], fr_isSnapshot = True,
            fr_snapshotData = Some channels\<rparr> = snapshotFrameBytes (frameDeltaTime now r) channels"
      by (simp add: encodeFrame_def)
    have "recordFrames (a # inputs) r = Inr r'"
      using r'(1) by (simp add: a r1(2) bindE_def)
    moreover have "stream r' = stream r @ framesBytes (storedFrames ?lft ?ls (isFirstFrame r) ?prev (a # inputs))"
      unfolding st r'(4) m(3) using m(8,9,10,12) by (simp add: framesBytes_def enc)
    moreover have "rec_frameCount r' = rec_frameCount r
        + length (storedFrames ?lft ?ls (isFirstFrame r) ?prev (a # inputs))"
      unfolding st r'(5) using m(8,9,10,11,12) by simp
    ultimately show ?thesis
      using r'(2,3,6,7,8,9) m(4,5,6,7) by simp
  next
    case False
    then have nf: "\<not> isFirstFrame r" "\<not> now - ?ls \<ge> SNAPSHOT_INTERVAL"
      by (simp_all add: needsSnapshot_def)
    have dt: "frameDeltaTime now r = now - ?lft" using nf(1) by (simp add: frameDeltaTime_def)
    show ?thesis
    proof (cases "channels = ?prev")
      case True
      then have "computeChanges channels ?prev = []" by (simp add: computeChanges_same)
      from recordFrame_still[OF Cons.prems(1) False this]
      have rf: "recordFrames (a # inputs) r = recordFrames inputs r" by (simp add: a bindE_def)
      have st: "storedFrames ?lft ?ls (isFirstFrame r) ?prev (a # inputs)
          = storedFrames ?lft ?ls (isFirstFrame r) ?prev inputs"
        using nf True by (simp add: a)
      from Cons.IH[OF Cons.prems(1,2,3) rest] show ?thesis unfolding rf st .
    next
      case ne: False
      then have ch: "computeChanges channels ?prev \<noteq> []"
        using computeChanges_empty_iff[OF lc Cons.prems(3)] by simp
      from recordFrame_delta[OF Cons.prems(1,2) False ch lc Cons.prems(3)]
      obtain r1 where r1: "appended r r1 (deltaFrameBytes (frameDeltaTime now r)
                                (computeChanges channels ?prev))"
          "recordFrame now channels r
             = Inr (r1\<lparr>rec_previousChannels := channels,
                       rec_lastFrameTime := now, rec_frameCount := rec_frameCount r + 1\<rparr>)"
        by blast
      have ls1: "rec_lastSnapshotTime r1 = ?ls" using appended_meta[OF r1(1)] by simp
      let ?r2 = "r1\<lparr>rec_lastSnapshotTime := ?ls, rec_previousChannels := channels,
                       rec_lastFrameTime := now, rec_frameCount := rec_frameCount r + 1\<rparr>"
      have e2: "r1\<lparr>rec_previousChannels := channels,
                       rec_lastFrameTime := now, rec_frameCount := rec_frameCount r + 1\<rparr> = ?r2"
        using ls1 by simp
      note m = meta_update_facts[where ls = "?ls" and channels = channels and now = now, OF r1(1) refl]
      have p2: "rec_state ?r2 = RecRecording" "length (rec_previousChannels ?r2) = TOTAL_CHANNELS"
        unfolding m(1) m(8) by (rule Cons.prems(1), rule lc)
      from Cons.IH[OF p2(1) m(2) p2(2) rest]
      obtain r' where r': "recordFrames inputs ?r2 = Inr r'" "rec_state r' = RecRecording" "bufferInvariant r'"
          "stream r' = stream ?r2 @ framesBytes (storedFrames (rec_lastFrameTime ?r2)
               (rec_lastSnapshotTime ?r2) (isFirstFrame ?r2) (rec_previousChannels ?r2) inputs)"
          "rec_frameCount r' = rec_frameCount ?r2 + length (storedFrames (rec_lastFrameTime ?r2)
               (rec_lastSnapshotTime ?r2) (isFirstFrame ?r2) (rec_previousChannels ?r2) inputs)"
          "take HEADER_SIZE (rec_file r') = take HEADER_SIZE (rec_file ?r2)"
          "rec_startTime r' = rec_startTime ?r2" "rec_universe r' = rec_universe ?r2"
          "rec_protocol r' = rec_protocol ?r2"
        by blast
      have st: "storedFrames ?lft ?ls (isFirstFrame r) ?prev (a # inputs)
          = \<lparr>fr_deltaTime = frameDeltaTime now r, fr_changes = computeChanges channels ?prev,
              fr_isSnapshot = False, fr_snapshotData = None\<rparr>
            # storedFrames now ?ls False channels inputs"
        using nf ne by (simp add: a dt)
      have enc: "encodeFrame \<lparr>fr_deltaTime = frameDeltaTime now r, fr_changes = computeChanges channels ?prev,
              fr_isSnapshot = False, fr_snapshotData = None\<rparr>
          = deltaFrameBytes (frameDeltaTime now r) (computeChanges channels ?prev)"
        by (simp add: encodeFrame_def)
      have rf: "recordFrame now channels r = Inr ?r2" using r1(2) unfolding e2 .
      have "recordFrames (a # inputs) r = Inr r'"
        unfolding a by (simp only: recordFrames.simps rf bindE_def sum.case r'(1))
      moreover have "stream r' = stream r @ framesBytes (storedFrames ?lft ?ls (isFirstFrame r) ?prev (a # inputs))"
        unfolding st r'(4) m(3) using m(8,9,10,12) by (simp add: framesBytes_def enc)
      moreover have "rec_frameCount r' = rec_frameCount r
          + length (storedFrames ?lft ?ls (isFirstFrame r) ?prev (a # inputs))"
        unfolding st r'(5) using m(8,9,10,11,12) by simp
      ultimately show ?thesis
        using r'(2,3,6,7,8,9) m(4,5,6,7) by simp
    qed
  qed
qed


lemma emittedFrames_append: "emittedFrames (xs @ ys) = emittedFrames xs @ emittedFrames ys"
  by (induction xs rule: emittedFrames.induct) auto

lemma started_recorder:
  assumes "rec_state r0 \<noteq> RecRecording" and "length (rec_writeBuffer r0) = WRITE_BUFFER_SIZE"
    and "length (rec_previousChannels r0) = TOTAL_CHANNELS"
    and "- (2 ^ 63) \<le> rec_startTime r0" and "rec_startTime r0 < 2 ^ 63"
    and "rec_frameCount r0 \<le> 4294967295"
    and "0 \<le> universe" and "universe \<le> 65535"
  shows "\<exists>r1. startRecording protocol universe t0 r0 = Inr r1 \<and> rec_state r1 = RecRecording \<and>
           bufferInvariant r1 \<and> rec_previousChannels r1 = replicate TOTAL_CHANNELS 0 \<and>
           rec_lastFrameTime r1 = t0 \<and> rec_lastSnapshotTime r1 = t0 \<and> isFirstFrame r1 \<and>
           rec_frameCount r1 = 0 \<and> stream r1 = [] \<and> rec_startTime r1 = t0 \<and>
           rec_universe r1 = universe \<and> rec_protocol r1 = protocol"
  unfolding startRecording_ok[OF assms(1,7,8,4,5,6)]
  using assms(2,3)
  by (simp add: bufferInvariant_def length_headerBytes HEADER_SIZE_def WRITE_BUFFER_SIZE_def
      isFirstFrame_def stream_def)

lemma newRecorder_idle:
  "rec_state newRecorder \<noteq> RecRecording" "length (rec_writeBuffer newRecorder) = WRITE_BUFFER_SIZE"
  "length (rec_previousChannels newRecorder) = TOTAL_CHANNELS"
  "- (2 ^ 63) \<le> rec_startTime newRecorder" "rec_startTime newRecorder < 2 ^ 63"
  "rec_frameCount newRecorder \<le> 4294967295"
  by (simp_all add: newRecorder_def)

text \<open>
  C3 (as the code has it). Recording round trip. A recorder that is not recording is
  started at time \<open>t0\<close>, is given a time-ordered list of 512-channel frames and is stopped
  at \<open>tStop\<close>, less than \<open>2 ^ 31\<close> ms after \<open>t0\<close>. None of the three steps raises. The file
  written is the header, with the measured duration and the number of stored frames,
  followed by one frame for each kept input and nothing else: an input is kept if it is
  the first, or arrives 5000 ms or more after the last snapshot (it is then stored as a
  snapshot, whether it differs from its predecessor or not), or differs from its
  predecessor; an input that is identical to its predecessor and arrives less than 5000
  ms after the last snapshot adds no byte. Loading the file into a new player and playing
  it to the end raises nothing and emits one frame for each kept input, in order, with
  exactly the 512 channel values of that input, and nothing for the other inputs.
\<close>

theorem recording_round_trip:
  assumes "rec_state r0 \<noteq> RecRecording" and "length (rec_writeBuffer r0) = WRITE_BUFFER_SIZE"
    and "length (rec_previousChannels r0) = TOTAL_CHANNELS"
    and "- (2 ^ 63) \<le> rec_startTime r0" and "rec_startTime r0 < 2 ^ 63"
    and "rec_frameCount r0 \<le> 4294967295"
    and "0 \<le> universe" and "universe \<le> 65535"
    and "- (2 ^ 63) \<le> t0" and "t0 < 2 ^ 63"
    and "sorted (map fst inputs)"
    and "\<forall>x \<in> set inputs. t0 \<le> fst x \<and> fst x \<le> tStop \<and> length (snd x) = TOTAL_CHANNELS"
    and "t0 \<le> tStop" and "tStop - t0 < 2 ^ 31" and "length inputs \<le> 4294967295"
  shows "\<exists>r1 r2 r3 p0 p1 evs1 p2 evs2.
           startRecording protocol universe t0 r0 = Inr r1 \<and>
           recordFrames inputs r1 = Inr r2 \<and>
           stopRecording tStop r2 = Inr (r3, tStop - t0) \<and>
           rec_file r3 = headerBytes protocol universe t0 (tStop - t0)
                           (length (keptInputs t0 True (replicate TOTAL_CHANNELS 0) inputs))
                         @ framesBytes (storedFrames t0 t0 True (replicate TOTAL_CHANNELS 0) inputs) \<and>
           load (rec_file r3) newPlayer = Inr (p0, []) \<and>
           play p0 = Inr (p1, evs1) \<and>
           fireTimers (length (keptInputs t0 True (replicate TOTAL_CHANNELS 0) inputs)) p1
             = Inr (p2, evs2) \<and>
           pl_state p2 = PlayFinished \<and>
           emittedFrames (evs1 @ evs2)
             = map snd (keptInputs t0 True (replicate TOTAL_CHANNELS 0) inputs)"
proof -
  let ?zeros = "replicate TOTAL_CHANNELS (0 :: byte)"
  let ?fs = "storedFrames t0 t0 True ?zeros inputs"
  let ?kept = "keptInputs t0 True ?zeros inputs"
  have lk: "length ?fs = length ?kept" by (rule length_storedFrames)
  have lens: "\<forall>x \<in> set inputs. length (snd x) = TOTAL_CHANNELS" using assms(12) by blast
  from started_recorder[OF assms(1-8), of protocol t0]
  obtain r1 where r1: "startRecording protocol universe t0 r0 = Inr r1" "rec_state r1 = RecRecording"
      "bufferInvariant r1" "rec_previousChannels r1 = ?zeros" "rec_lastFrameTime r1 = t0"
      "rec_lastSnapshotTime r1 = t0" "isFirstFrame r1" "rec_frameCount r1 = 0" "stream r1 = []"
      "rec_startTime r1 = t0" "rec_universe r1 = universe" "rec_protocol r1 = protocol"
    by blast
  have lp: "length (rec_previousChannels r1) = TOTAL_CHANNELS" by (simp add: r1(4))
  from recordFrames_stored[OF r1(2,3) lp lens]
  obtain r2 where r2: "recordFrames inputs r1 = Inr r2" "rec_state r2 = RecRecording" "bufferInvariant r2"
      "stream r2 = framesBytes ?fs" "rec_frameCount r2 = length ?fs"
      "rec_startTime r2 = t0" "rec_universe r2 = universe" "rec_protocol r2 = protocol"
    unfolding r1(4,5,6,8,9,10,11,12) using r1(7) by auto
  have fc: "length ?fs \<le> 4294967295"
    using length_keptInputs[of t0 True ?zeros inputs] assms(15) by (simp add: lk)
  have dur: "tStop - t0 \<le> 4294967295" "0 \<le> tStop - t0" using assms(13,14) by simp_all
  from stopRecording_ok[OF r2(2,3), of tStop] assms(7,8,9,10,13) dur fc
  obtain r3 where r3: "stopRecording tStop r2 = Inr (r3, tStop - t0)"
      "rec_file r3 = headerBytes protocol universe t0 (tStop - t0) (length ?fs) @ framesBytes ?fs"
    unfolding r2(4,5,6,7,8) by auto
  from load_recording[OF dur(2,1) fc, of protocol universe t0 "framesBytes ?fs"]
  obtain header where h: "load (rec_file r3) newPlayer
        = Inr (newPlayer\<lparr>pl_header := Some header, pl_frameData := Some (framesBytes ?fs)\<rparr>, [])"
      "hdr_frameCount header = length ?fs"
    unfolding r3(2) by blast
  have valid: "\<forall>f \<in> set ?fs. validFrame f"
  proof (rule storedFrames_valid[OF assms(11), where ?t0.0 = t0])
    show "\<forall>x \<in> set inputs. t0 \<le> fst x \<and> fst x - t0 < 2 ^ 31 \<and> length (snd x) = TOTAL_CHANNELS"
      using assms(12,14) by fastforce
  qed simp
  from play_start[OF valid h(2)]
  obtain p1 evs1 where p1: "play (newPlayer\<lparr>pl_header := Some header,
        pl_frameData := Some (framesBytes ?fs)\<rparr>) = Inr (p1, evs1)"
      "emittedFrames evs1 = []" "afterTimers ?fs header 0 p1"
    by blast
  from fireTimers_run[OF valid p1(3), of "length ?fs"]
  obtain p2 evs2 where p2: "fireTimers (length ?fs) p1 = Inr (p2, evs2)"
      "afterTimers ?fs header (length ?fs) p2"
      "emittedFrames evs2 = take (length ?fs) (drop 0 (playStates ?fs ?zeros))"
    by auto
  have ps: "playStates ?fs ?zeros = map snd ?kept"
    by (rule playStates_stored[OF lens]) simp
  have em: "emittedFrames (evs1 @ evs2) = map snd ?kept"
    by (simp add: emittedFrames_append p1(2) p2(3) ps lk)
  have fin: "pl_state p2 = PlayFinished" using p2(2) by (simp add: afterTimers_def)
  show ?thesis
    using r1(1) r2(1) r3 h(1) p1(1) p2(1) fin em unfolding lk by blast
qed

theorem recording_round_trip_witness:
  "\<exists>r1 r2 r3 p0 p1 evs1 p2 evs2.
     startRecording Sacn 1 1000 newRecorder = Inr r1 \<and>
     recordFrames roundTripInputs r1 = Inr r2 \<and>
     stopRecording 2000 r2 = Inr (r3, 1000) \<and>
     load (rec_file r3) newPlayer = Inr (p0, []) \<and>
     play p0 = Inr (p1, evs1) \<and>
     fireTimers 2 p1 = Inr (p2, evs2) \<and>
     pl_state p2 = PlayFinished \<and>
     emittedFrames (evs1 @ evs2) = [replicate 512 7, replicate 512 8]"
proof -
  have k: "keptInputs 1000 True (replicate TOTAL_CHANNELS 0) roundTripInputs
             = [(1000, replicate 512 7), (1020, replicate 512 8)]"
    by (simp add: roundTripInputs_def SNAPSHOT_INTERVAL_def)
  have a: "sorted (map fst roundTripInputs)"
    "\<forall>x \<in> set roundTripInputs. 1000 \<le> fst x \<and> fst x \<le> 2000 \<and> length (snd x) = TOTAL_CHANNELS"
    "length roundTripInputs \<le> 4294967295"
    by (simp_all add: roundTripInputs_def TOTAL_CHANNELS_def)
  from recording_round_trip [OF newRecorder_idle, of 1 1000 roundTripInputs 2000 Sacn, unfolded k] a
  obtain r1 r2 r3 p0 p1 evs1 p2 evs2 where
     "startRecording Sacn 1 1000 newRecorder = Inr r1"
     "recordFrames roundTripInputs r1 = Inr r2"
     "stopRecording 2000 r2 = Inr (r3, 2000 - 1000)"
     "load (rec_file r3) newPlayer = Inr (p0, [])"
     "play p0 = Inr (p1, evs1)"
     "fireTimers (length [(1000 :: int, replicate 512 (7 :: byte)), (1020, replicate 512 8)]) p1 = Inr (p2, evs2)"
     "pl_state p2 = PlayFinished"
     "emittedFrames (evs1 @ evs2) = map snd [(1000 :: int, replicate 512 (7 :: byte)), (1020, replicate 512 8)]"
    by auto
  then show ?thesis by (intro exI[of _ r1] exI[of _ r2] exI[of _ r3] exI[of _ p0] exI[of _ p1]
       exI[of _ evs1] exI[of _ p2] exI[of _ evs2]) (simp add: numeral_2_eq_2)
qed

text \<open>
  C3 as stated fails: a frame that is identical to its predecessor but arrives 5000 ms
  after the last snapshot is stored as a snapshot, 515 bytes, and counted as a frame.
\<close>

theorem recording_still_snapshot_counterexample:
  "\<exists>r1 r2. startRecording Sacn 1 1000 newRecorder = Inr r1 \<and>
     recordFrames stillSnapshotInputs r1 = Inr r2 \<and>
     stream r2 = snapshotFrameBytes 0 (replicate 512 7) @ snapshotFrameBytes 5000 (replicate 512 7) \<and>
     length (snapshotFrameBytes 5000 (replicate 512 7)) = 515 \<and>
     rec_frameCount r2 = 2"
proof -
  from started_recorder[OF newRecorder_idle, of 1 Sacn 1000]
  obtain r1 where r1: "startRecording Sacn 1 1000 newRecorder = Inr r1" "rec_state r1 = RecRecording"
      "bufferInvariant r1" "rec_previousChannels r1 = replicate TOTAL_CHANNELS 0" "rec_lastFrameTime r1 = 1000"
      "rec_lastSnapshotTime r1 = 1000" "isFirstFrame r1" "rec_frameCount r1 = 0" "stream r1 = []"
    by auto
  have lp: "length (rec_previousChannels r1) = TOTAL_CHANNELS" by (simp add: r1(4))
  have lens: "\<forall>x \<in> set stillSnapshotInputs. length (snd x) = TOTAL_CHANNELS"
    by (simp add: stillSnapshotInputs_def TOTAL_CHANNELS_def)
  have st: "storedFrames 1000 1000 True (replicate TOTAL_CHANNELS 0) stillSnapshotInputs
      = [\<lparr>fr_deltaTime = 0, fr_changes = [], fr_isSnapshot = True, fr_snapshotData = Some (replicate 512 7)\<rparr>,
         \<lparr>fr_deltaTime = 5000, fr_changes = [], fr_isSnapshot = True, fr_snapshotData = Some (replicate 512 7)\<rparr>]"
    by (simp add: stillSnapshotInputs_def SNAPSHOT_INTERVAL_def)
  from recordFrames_stored[OF r1(2,3) lp lens]
  obtain r2 where r2: "recordFrames stillSnapshotInputs r1 = Inr r2"
      "stream r2 = snapshotFrameBytes 0 (replicate 512 7) @ snapshotFrameBytes 5000 (replicate 512 7)"
      "rec_frameCount r2 = 2"
    unfolding r1(4,5,6,8,9) using r1(7) by (auto simp: st framesBytes_def encodeFrame_def)
  have e: "encodeVarint 5000 = [0x88, 0x27]"
    by (simp add: encodeVarint.simps)
  have "length (snapshotFrameBytes 5000 (replicate 512 7)) = 515"
    by (simp add: snapshotFrameBytes_def e TOTAL_CHANNELS_def)
  with r1(1) r2 show ?thesis by blast
qed

end
